theory Spec2Isabelle
  imports Main "HOL-Library.Word" "HOL-Library.Multiset"
begin

unbundle bit_operations_syntax

section \<open>Data model of the DRM device (class DrmGpu)\<close>

text \<open>
  Kernel object ids (connectors, CRTCs, planes, encoders, lessees) are only compared, so
  they are natural numbers. Pixel formats are the 32-bit fourcc codes. Objects that the
  code mutates or allocates behind pointers (connectors, pipelines, outputs, lease outputs,
  lease requests) live in explicit stores of the device state, addressed by natural numbers;
  planes and CRTCs are immutable in every field the code reads and are kept by value.
\<close>

type_synonym uint32_t = "32 word"
type_synonym int64_t = "64 word"

datatype TypeIndex = Overlay | Primary | Cursor

record DrmPlane =
  plane_id :: nat
  plane_type :: TypeIndex
  plane_crtcs :: "nat list"
  plane_CrtcId :: nat
  plane_formats :: "uint32_t list"

text \<open>
  \<open>plane_crtcs\<close> lists the CRTC indices for which \<open>DrmPlane::isCrtcSupported\<close> answers
  true (the class is declared outside the DrmGpu source, its answers are data of the plane),
  \<open>plane_CrtcId\<close> is the current value of the plane's CrtcId property.
\<close>

definition isCrtcSupported :: "DrmPlane \<Rightarrow> nat \<Rightarrow> bool" where
  "isCrtcSupported plane i = (i \<in> set (plane_crtcs plane))"

record DrmCrtc =
  crtc_id :: nat
  crtc_pipeIndex :: nat
  crtc_primaryPlane :: "DrmPlane option"

datatype clockid_t = CLOCK_REALTIME | CLOCK_MONOTONIC

definition DRM_FORMAT_XRGB8888 :: uint32_t where
  "DRM_FORMAT_XRGB8888 = 0x34325258"

definition DRM_FORMAT_ARGB8888 :: uint32_t where
  "DRM_FORMAT_ARGB8888 = 0x34325241"

text \<open>
  A \<open>DrmConnector*\<close> is represented by the connector's kernel id: updateOutputs constructs
  a DrmConnector only for an id that no connector of \<open>m_connectors\<close> has, so
  \<open>c->id()\<close> is the address itself. The record holds the properties the code reads.
\<close>

record DrmConnector =
  conn_isConnected :: bool
  conn_encoders :: "nat list"
  conn_isNonDesktop :: bool
  conn_CrtcId :: nat

record DrmPipeline =
  pl_connector :: nat
  pl_crtc :: DrmCrtc
  pl_output :: "nat option"
  pl_active :: bool

record DrmOutput =
  o_connector :: nat
  o_pipeline :: "nat option"
  o_enabled :: bool
  o_dpmsOn :: bool

record DrmLeaseOutput =
  lo_pipeline :: nat
  lo_lease :: "nat option"

text \<open>
  A lease request of the lease protocol (\<open>KWaylandServer::DrmLeaseV1Interface\<close>): the
  requested connectors (addresses of lease outputs), the lessee id (0 while none), and
  what the compositor answered.
\<close>

datatype LeaseAnswer = Pending | Granted int nat | Denied

record DrmLeaseV1 =
  lease_connectors :: "nat list"
  lease_lesseeId :: nat
  lease_answer :: LeaseAnswer

datatype Signal =
    OutputEnabled nat
  | OutputDisabled "nat option"
  | OutputAdded nat
  | OutputRemoved nat

record DrmGpu =
  m_atomicModeSetting :: bool
  m_planes :: "DrmPlane list"
  m_crtcs :: "DrmCrtc list"
  m_connectors :: "nat list"
  m_pipelines :: "nat list"
  m_outputs :: "nat list"
  m_drmOutputs :: "nat list"
  m_leaseOutputs :: "nat list"
  connectorObj :: "nat \<Rightarrow> DrmConnector"
  pipelineObj :: "nat \<Rightarrow> DrmPipeline"
  outputObj :: "nat \<Rightarrow> DrmOutput"
  leaseOutputObj :: "nat \<Rightarrow> DrmLeaseOutput"
  leaseObj :: "nat \<Rightarrow> DrmLeaseV1"
  livePipelines :: "nat set"
  nextPipeline :: nat
  liveOutputs :: "nat set"
  nextOutput :: nat
  nextLeaseOutput :: nat
  signals :: "Signal list"
  testCommits :: "(nat list \<times> bool) list"
  leaseCalls :: "nat list list"
  revokedLessees :: "nat list"
  softwareCursorForced :: bool
  leaseDeviceDrmMaster :: bool

text \<open>
  \<open>livePipelines\<close> and \<open>liveOutputs\<close> are the objects that were allocated with \<open>new\<close> and
  not yet deleted; \<open>new\<close> hands out the next unused address. \<open>signals\<close> is the sequence of
  Qt signals emitted, \<open>testCommits\<close> the sequence of test commits submitted to the kernel
  with their outcome, \<open>leaseCalls\<close> the object lists passed to drmModeCreateLease and
  \<open>revokedLessees\<close> the lessee ids passed to drmModeRevokeLease.
\<close>

text \<open>
  Modelled from the spec: the classes DrmPipeline, DrmOutput and DrmLeaseOutput are declared
  outside the DrmGpu source. The spec (3): a Pipeline is the binding of one Connector to one CRTC
  plus an optional Output reference and an active flag; an Output wraps a Pipeline and
  carries the enable and dpms state; a LeaseOutput wraps a Pipeline and, while leased,
  the lease. Their setters store the given value and change nothing else.
\<close>

definition emit :: "Signal \<Rightarrow> DrmGpu \<Rightarrow> DrmGpu" where
  "emit sig s = s\<lparr>signals := signals s @ [sig]\<rparr>"

definition setPipeline :: "nat \<Rightarrow> nat option \<Rightarrow> DrmGpu \<Rightarrow> DrmGpu" where
  "setPipeline output pipeline s =
     s\<lparr>outputObj := (outputObj s)(output := (outputObj s output)\<lparr>o_pipeline := pipeline\<rparr>)\<rparr>"

definition setOutput :: "nat \<Rightarrow> nat option \<Rightarrow> DrmGpu \<Rightarrow> DrmGpu" where
  "setOutput pipeline output s =
     s\<lparr>pipelineObj := (pipelineObj s)(pipeline := (pipelineObj s pipeline)\<lparr>pl_output := output\<rparr>)\<rparr>"

definition setActive :: "nat \<Rightarrow> bool \<Rightarrow> DrmGpu \<Rightarrow> DrmGpu" where
  "setActive pipeline active s =
     s\<lparr>pipelineObj := (pipelineObj s)(pipeline := (pipelineObj s pipeline)\<lparr>pl_active := active\<rparr>)\<rparr>"

text \<open>
  Modelled from the spec: \<open>new DrmPipeline(this, connector, crtc)\<close>, a hypothesised
  binding of the connector to the CRTC, with no output yet and active.
\<close>

definition newDrmPipeline :: "nat \<Rightarrow> DrmCrtc \<Rightarrow> DrmGpu \<Rightarrow> nat \<times> DrmGpu" where
  "newDrmPipeline connector crtc s =
     (nextPipeline s,
      s\<lparr>pipelineObj := (pipelineObj s)(nextPipeline s :=
            \<lparr>pl_connector = connector, pl_crtc = crtc, pl_output = None, pl_active = True\<rparr>),
        livePipelines := insert (nextPipeline s) (livePipelines s),
        nextPipeline := Suc (nextPipeline s)\<rparr>)"

definition deletePipeline :: "nat option \<Rightarrow> DrmGpu \<Rightarrow> DrmGpu" where
  "deletePipeline pipeline s =
     (case pipeline of None \<Rightarrow> s | Some p \<Rightarrow> s\<lparr>livePipelines := livePipelines s - {p}\<rparr>)"

text \<open>
  Modelled from the spec: \<open>new DrmOutput(this, pipeline)\<close>, an Output wrapping the
  pipeline. updateOutputs reads the new output back through \<open>pipeline->output()\<close> and
  findOutput reads \<open>o->connector()\<close> while the output has no pipeline, so the
  constructor records the pipeline's connector and links output and pipeline both ways. A
  new output is enabled with DPMS on.
\<close>

definition newDrmOutput :: "nat \<Rightarrow> DrmGpu \<Rightarrow> nat \<times> DrmGpu" where
  "newDrmOutput pipeline s =
     (nextOutput s,
      s\<lparr>outputObj := (outputObj s)(nextOutput s :=
            \<lparr>o_connector = pl_connector (pipelineObj s pipeline), o_pipeline = Some pipeline,
             o_enabled = True, o_dpmsOn = True\<rparr>),
        pipelineObj := (pipelineObj s)(pipeline :=
            (pipelineObj s pipeline)\<lparr>pl_output := Some (nextOutput s)\<rparr>),
        liveOutputs := insert (nextOutput s) (liveOutputs s),
        nextOutput := Suc (nextOutput s)\<rparr>)"

definition deleteOutput :: "nat option \<Rightarrow> DrmGpu \<Rightarrow> DrmGpu" where
  "deleteOutput output s =
     (case output of None \<Rightarrow> s | Some out \<Rightarrow> s\<lparr>liveOutputs := liveOutputs s - {out}\<rparr>)"

definition findOutput :: "DrmGpu \<Rightarrow> nat \<Rightarrow> nat option" where
  "findOutput s connector = find (\<lambda>out. o_connector (outputObj s out) = connector) (m_drmOutputs s)"

definition findLeaseOutput :: "DrmGpu \<Rightarrow> nat \<Rightarrow> nat option" where
  "findLeaseOutput s connector =
     find (\<lambda>out. pl_connector (pipelineObj s (lo_pipeline (leaseOutputObj s out))) = connector)
          (m_leaseOutputs s)"

section \<open>Capability query: isFormatSupported\<close>

fun allPrimaryContain :: "DrmPlane list \<Rightarrow> uint32_t \<Rightarrow> bool" where
  "allPrimaryContain [] drmFormat = True"
| "allPrimaryContain (plane # planes) drmFormat =
     (if plane_type plane = Primary \<and> drmFormat \<notin> set (plane_formats plane) then False
      else allPrimaryContain planes drmFormat)"

definition isFormatSupported :: "DrmGpu \<Rightarrow> uint32_t \<Rightarrow> bool" where
  "isFormatSupported s drmFormat =
     (if \<not> m_atomicModeSetting s
      then drmFormat = DRM_FORMAT_XRGB8888 \<or> drmFormat = DRM_FORMAT_ARGB8888
      else allPrimaryContain (m_planes s) drmFormat)"

section \<open>Timestamps of page-flip events\<close>

text \<open>
  \<open>timespec\<close> on an LP64 target: \<open>time_t\<close> and \<open>long\<close> are 64-bit;
  \<open>std::chrono::nanoseconds\<close> counts in a signed 64-bit integer. Arithmetic on the
  words wraps; \<open>sint\<close> reads the signed value.
\<close>

record timespec =
  tv_sec :: int64_t
  tv_nsec :: int64_t

type_synonym nanoseconds = int64_t

definition convertTimestamp_timespec :: "timespec \<Rightarrow> nanoseconds" where
  "convertTimestamp_timespec timestamp = tv_sec timestamp * 1000000000 + tv_nsec timestamp"

text \<open>
  The three-argument overload. \<open>clock_gettime\<close> is the reading of each clock at the time
  of the call; the second component of the result lists the clocks that were sampled, in
  order.
\<close>

definition convertTimestamp ::
  "(clockid_t \<Rightarrow> timespec) \<Rightarrow> clockid_t \<Rightarrow> clockid_t \<Rightarrow> timespec \<Rightarrow> nanoseconds \<times> clockid_t list" where
  "convertTimestamp clock_gettime sourceClock targetClock timestamp =
     (if sourceClock = targetClock then (convertTimestamp_timespec timestamp, [])
      else
        let sourceCurrentTime = clock_gettime sourceClock;
            targetCurrentTime = clock_gettime targetClock;
            delta = convertTimestamp_timespec sourceCurrentTime - convertTimestamp_timespec timestamp
        in (convertTimestamp_timespec targetCurrentTime - delta, [sourceClock, targetClock]))"

text \<open>
  What \<open>pageFlipHandler\<close> sees of the process: whether the platform is a DRM backend,
  the device that owns the file descriptor (its output list and presentation clock), the
  clocks, and the steady clock. An output listed by a device belongs to that device, so
  \<open>output->gpu()\<close> is the device found for the fd.
\<close>

record FlipGpu =
  gpu_outputs :: "nat list"
  gpu_presentationClock :: clockid_t

record FlipContext =
  platformIsDrmBackend :: bool
  findGpuByFd :: "int \<Rightarrow> FlipGpu option"
  clock_gettime :: "clockid_t \<Rightarrow> timespec"
  steady_clock_now :: nanoseconds

datatype FlipEffect = PageFlipped nat | NotifyFrameCompleted nat nanoseconds

text \<open>
  \<open>sec\<close> and \<open>usec\<close> are \<open>unsigned int\<close>; \<open>usec * 1000\<close> is computed in 32 bits
  before the cast to \<open>long\<close>. \<open>data\<close> is the output the flip was queued for. The result
  lists the calls made on the output and its render loop (none on an early return).
\<close>

definition pageFlipHandler :: "FlipContext \<Rightarrow> int \<Rightarrow> uint32_t \<Rightarrow> uint32_t \<Rightarrow> uint32_t \<Rightarrow> nat \<Rightarrow> FlipEffect list" where
  "pageFlipHandler ctx fd frame sec usec output =
     (if \<not> platformIsDrmBackend ctx then []
      else case findGpuByFd ctx fd of
        None \<Rightarrow> []
      | Some gpu \<Rightarrow>
          if output \<notin> set (gpu_outputs gpu) then []
          else
            let timestamp = fst (convertTimestamp (clock_gettime ctx) (gpu_presentationClock gpu)
                                   CLOCK_MONOTONIC
                                   \<lparr>tv_sec = ucast sec, tv_nsec = ucast (usec * 1000)\<rparr>);
                timestamp' = (if timestamp = 0 then steady_clock_now ctx else timestamp)
            in [PageFlipped output, NotifyFrameCompleted output timestamp'])"

section \<open>Construction and resource discovery\<close>

text \<open>
  The member initialisers of the constructor: legacy mode, no hardware objects. The stores
  hold no object yet; their content at unused addresses is immaterial.
\<close>

definition DrmGpu_ctor :: DrmGpu where
  "DrmGpu_ctor =
     \<lparr>m_atomicModeSetting = False, m_planes = [], m_crtcs = [], m_connectors = [],
      m_pipelines = [], m_outputs = [], m_drmOutputs = [], m_leaseOutputs = [],
      connectorObj = (\<lambda>_. \<lparr>conn_isConnected = False, conn_encoders = [],
                             conn_isNonDesktop = False, conn_CrtcId = 0\<rparr>),
      pipelineObj = (\<lambda>_. \<lparr>pl_connector = 0,
                            pl_crtc = \<lparr>crtc_id = 0, crtc_pipeIndex = 0, crtc_primaryPlane = None\<rparr>,
                            pl_output = None, pl_active = False\<rparr>),
      outputObj = (\<lambda>_. \<lparr>o_connector = 0, o_pipeline = None, o_enabled = False, o_dpmsOn = False\<rparr>),
      leaseOutputObj = (\<lambda>_. \<lparr>lo_pipeline = 0, lo_lease = None\<rparr>),
      leaseObj = (\<lambda>_. \<lparr>lease_connectors = [], lease_lesseeId = 0, lease_answer = Pending\<rparr>),
      livePipelines = {}, nextPipeline = 1, liveOutputs = {}, nextOutput = 1,
      nextLeaseOutput = 1, signals = [], testCommits = [], leaseCalls = [], revokedLessees = [],
      softwareCursorForced = False, leaseDeviceDrmMaster = False\<rparr>"

text \<open>
  What the driver answers during resource discovery: whether
  \<open>drmSetClientCap(DRM_CLIENT_CAP_ATOMIC)\<close> returned 0; the planes of
  \<open>drmModeGetPlaneResources\<close> in kernel order, each with the result of \<open>DrmPlane::init\<close>
  (\<open>None\<close> when the query fails); the CRTC ids of \<open>drmModeGetResources\<close> (\<open>None\<close> when
  it fails); and the result of \<open>DrmCrtc::init\<close>. \<open>drmModeGetPlane\<close> is taken to answer
  for every listed plane: the code reads \<open>kplane->plane_id\<close> from its reply unchecked.
\<close>

record DrmDriver =
  drmSetClientCap_ATOMIC :: bool
  drmModeGetPlaneResources :: "(DrmPlane \<times> bool) list option"
  drmModeGetResources_crtcs :: "nat list option"
  DrmCrtc_init :: "DrmCrtc \<Rightarrow> bool"

text \<open>The plane loop: planes whose init succeeds are appended to \<open>m_planes\<close>.\<close>

fun createPlanes :: "(DrmPlane \<times> bool) list \<Rightarrow> DrmPlane list \<Rightarrow> DrmPlane list" where
  "createPlanes [] planes = planes"
| "createPlanes ((p, ok) # rest) planes =
     (if ok then createPlanes rest (planes @ [p]) else createPlanes rest planes)"

text \<open>
  The inner loop over the unassigned planes for CRTC number \<open>i\<close> with id \<open>crtc\<close>: the last
  primary plane that supports the CRTC, or the first such plane already bound to it.
\<close>

fun findPrimary :: "DrmPlane list \<Rightarrow> nat \<Rightarrow> nat \<Rightarrow> DrmPlane option \<Rightarrow> DrmPlane option" where
  "findPrimary [] i crtc primary = primary"
| "findPrimary (plane # planes) i crtc primary =
     (if plane_type plane = Primary \<and> isCrtcSupported plane i
      then (if plane_CrtcId plane = crtc then Some plane
            else findPrimary planes i crtc (Some plane))
      else findPrimary planes i crtc primary)"

definition removeOne_opt :: "'a option \<Rightarrow> 'a list \<Rightarrow> 'a list" where
  "removeOne_opt x xs = (case x of None \<Rightarrow> xs | Some y \<Rightarrow> remove1 y xs)"

text \<open>
  The loop over \<open>resources->crtcs\<close>, from index \<open>i\<close> on, with the local list \<open>planes\<close> of
  planes not yet handed to a CRTC; returns the new \<open>m_crtcs\<close>.
\<close>

fun createCrtcs :: "DrmDriver \<Rightarrow> bool \<Rightarrow> nat list \<Rightarrow> nat \<Rightarrow> DrmPlane list \<Rightarrow> DrmCrtc list \<Rightarrow> DrmCrtc list" where
  "createCrtcs drv atomic [] i planes crtcs = crtcs"
| "createCrtcs drv atomic (crtc # rest) i planes crtcs =
     (let primary = findPrimary planes i crtc None in
      if atomic \<and> primary = None then createCrtcs drv atomic rest (Suc i) planes crtcs
      else
        let planes' = removeOne_opt primary planes;
            c = \<lparr>crtc_id = crtc, crtc_pipeIndex = i, crtc_primaryPlane = primary\<rparr>
        in if \<not> DrmCrtc_init drv c then createCrtcs drv atomic rest (Suc i) planes' crtcs
           else createCrtcs drv atomic rest (Suc i) planes' (crtcs @ [c]))"

definition initDrmResources :: "DrmDriver \<Rightarrow> DrmGpu \<Rightarrow> DrmGpu" where
  "initDrmResources drv s =
     (let s1 =
        (if drmSetClientCap_ATOMIC drv then
           (case drmModeGetPlaneResources drv of
              Some planeResources \<Rightarrow>
                let s' = s\<lparr>m_planes := createPlanes planeResources (m_planes s)\<rparr> in
                if m_planes s' = [] then s'\<lparr>m_atomicModeSetting := False\<rparr>
                else s'\<lparr>m_atomicModeSetting := True\<rparr>
            | None \<Rightarrow> s\<lparr>m_atomicModeSetting := False\<rparr>)
         else s\<lparr>m_atomicModeSetting := False\<rparr>)
      in case drmModeGetResources_crtcs drv of
           None \<Rightarrow> s1
         | Some crtcs \<Rightarrow>
             s1\<lparr>m_crtcs := createCrtcs drv (m_atomicModeSetting s1) crtcs 0 (m_planes s1) (m_crtcs s1)\<rparr>)"

text \<open>
  The constructor runs resource discovery unless the environment variable
  \<open>KWIN_DRM_NO_AMS\<close> is set.
\<close>

definition DrmGpu_new :: "bool \<Rightarrow> DrmDriver \<Rightarrow> DrmGpu" where
  "DrmGpu_new KWIN_DRM_NO_AMS drv =
     (if \<not> KWIN_DRM_NO_AMS then initDrmResources drv DrmGpu_ctor else DrmGpu_ctor)"

section \<open>Pipeline negotiation\<close>

text \<open>
  \<open>std::sort\<close> as libstdc++ runs it (\<open>bits/stl_algo.h\<close>, \<open>bits/stl_heap.h\<close>):
  \<open>__introsort_loop\<close> with the depth limit \<open>2 * __lg(n)\<close>, then \<open>__final_insertion_sort\<close>.
  A range of at most 16 elements is sorted by the insertion sort alone; a longer one is
  first partitioned around medians of three, with a heap sort once the depth limit is
  used up. The array is a list and iterators are indices into it. The comparator that
  findWorkingCombination passes is not a strict weak ordering, so the result is the one
  of this algorithm and not a sorted list in any other sense. The scans of
  \<open>__unguarded_partition\<close> and \<open>__unguarded_linear_insert\<close> have no bound of their own:
  where such a scan leaves the array the C++ program has no defined behaviour, and the
  functions below return \<open>None\<close>.
\<close>

definition iter_swap :: "nat \<Rightarrow> nat \<Rightarrow> 'a list \<Rightarrow> 'a list" where
  "iter_swap a b xs = xs[a := xs ! b, b := xs ! a]"

definition move_median_to_first ::
    "('a \<Rightarrow> 'a \<Rightarrow> bool) \<Rightarrow> nat \<Rightarrow> nat \<Rightarrow> nat \<Rightarrow> nat \<Rightarrow> 'a list \<Rightarrow> 'a list" where
  "move_median_to_first cmp result a b c xs =
     (if cmp (xs ! a) (xs ! b) then
        (if cmp (xs ! b) (xs ! c) then iter_swap result b xs
         else if cmp (xs ! a) (xs ! c) then iter_swap result c xs
         else iter_swap result a xs)
      else if cmp (xs ! a) (xs ! c) then iter_swap result a xs
      else if cmp (xs ! b) (xs ! c) then iter_swap result c xs
      else iter_swap result b xs)"

text \<open>\<open>while (comp(first, pivot)) ++first\<close>: the index where the scan stops.\<close>

function scan_up :: "('a \<Rightarrow> 'a \<Rightarrow> bool) \<Rightarrow> 'a list \<Rightarrow> nat \<Rightarrow> nat \<Rightarrow> nat option" where
  "scan_up cmp xs pivot first =
     (if first < length xs
      then (if cmp (xs ! first) (xs ! pivot) then scan_up cmp xs pivot (Suc first) else Some first)
      else None)"
  by pat_completeness auto
termination
  by (relation "measure (\<lambda>(cmp, xs, pivot, first). length xs - first)") auto

text \<open>\<open>while (comp(pivot, last)) --last\<close>, from the index that \<open>--last\<close> has reached.\<close>

fun scan_down :: "('a \<Rightarrow> 'a \<Rightarrow> bool) \<Rightarrow> 'a list \<Rightarrow> nat \<Rightarrow> nat \<Rightarrow> nat option" where
  "scan_down cmp xs pivot 0 = (if cmp (xs ! pivot) (xs ! 0) then None else Some 0)"
| "scan_down cmp xs pivot (Suc lst) =
     (if cmp (xs ! pivot) (xs ! Suc lst) then scan_down cmp xs pivot lst else Some (Suc lst))"

function unguarded_partition ::
    "('a \<Rightarrow> 'a \<Rightarrow> bool) \<Rightarrow> nat \<Rightarrow> 'a list \<Rightarrow> nat \<Rightarrow> nat \<Rightarrow> (nat \<times> 'a list) option" where
  "unguarded_partition cmp pivot xs first lst =
     (case scan_up cmp xs pivot first of
        None \<Rightarrow> None
      | Some first' \<Rightarrow>
          (case lst of
             0 \<Rightarrow> None
           | Suc l \<Rightarrow>
               (case scan_down cmp xs pivot l of
                  None \<Rightarrow> None
                | Some lst' \<Rightarrow>
                    if \<not> first' < lst' then Some (first', xs)
                    else unguarded_partition cmp pivot (iter_swap first' lst' xs) (Suc first') lst')))"
  by pat_completeness auto
termination
proof (relation "measure (\<lambda>(cmp, pivot, xs, first, lst). lst - first)", goal_cases)
  case 1
  show ?case by simp
next
  case (2 cmp pivot xs first lst first' l lst')
  have up: "scan_up c ys p i = Some j \<Longrightarrow> i \<le> j" for c :: "'a \<Rightarrow> 'a \<Rightarrow> bool" and ys p i j
    by (induction c ys p i rule: scan_up.induct)
       (subst (asm) scan_up.simps, auto split: if_splits)
  have down: "scan_down c ys p i = Some j \<Longrightarrow> j \<le> i" for c :: "'a \<Rightarrow> 'a \<Rightarrow> bool" and ys p i j
    by (induction i) (auto split: if_splits)
  from 2 up [of cmp xs pivot first first'] down [of cmp xs pivot l lst']
  show ?case by auto
qed

definition unguarded_partition_pivot ::
    "('a \<Rightarrow> 'a \<Rightarrow> bool) \<Rightarrow> 'a list \<Rightarrow> nat \<Rightarrow> nat \<Rightarrow> (nat \<times> 'a list) option" where
  "unguarded_partition_pivot cmp xs first lst =
     (let mid = first + (lst - first) div 2;
          xs1 = move_median_to_first cmp first (Suc first) mid (lst - 1) xs
      in unguarded_partition cmp first xs1 (Suc first) lst)"

text \<open>
  The heap sort that takes over at depth limit 0. All its accesses stay inside the range
  \<open>[first, first + len)\<close>.
\<close>

function push_heap :: "('a \<Rightarrow> 'a \<Rightarrow> bool) \<Rightarrow> 'a list \<Rightarrow> nat \<Rightarrow> nat \<Rightarrow> nat \<Rightarrow> 'a \<Rightarrow> 'a list" where
  "push_heap cmp xs first holeIndex topIndex val =
     (if holeIndex > topIndex \<and> cmp (xs ! (first + (holeIndex - 1) div 2)) val
      then push_heap cmp (xs[first + holeIndex := xs ! (first + (holeIndex - 1) div 2)])
             first ((holeIndex - 1) div 2) topIndex val
      else xs[first + holeIndex := val])"
  by pat_completeness auto
termination
  by (relation "measure (\<lambda>(cmp, xs, first, holeIndex, topIndex, val). holeIndex)") auto

function adjust_heap_loop ::
    "('a \<Rightarrow> 'a \<Rightarrow> bool) \<Rightarrow> 'a list \<Rightarrow> nat \<Rightarrow> nat \<Rightarrow> nat \<Rightarrow> nat \<Rightarrow> nat \<times> nat \<times> 'a list" where
  "adjust_heap_loop cmp xs first len holeIndex secondChild =
     (if secondChild < (len - 1) div 2 then
        (let sc = 2 * (secondChild + 1);
             sc' = (if cmp (xs ! (first + sc)) (xs ! (first + (sc - 1))) then sc - 1 else sc)
         in adjust_heap_loop cmp (xs[first + holeIndex := xs ! (first + sc')]) first len sc' sc')
      else (holeIndex, secondChild, xs))"
  by pat_completeness auto
termination
  by (relation "measure (\<lambda>(cmp, xs, first, len, holeIndex, secondChild). len - secondChild)") auto

definition adjust_heap :: "('a \<Rightarrow> 'a \<Rightarrow> bool) \<Rightarrow> 'a list \<Rightarrow> nat \<Rightarrow> nat \<Rightarrow> nat \<Rightarrow> 'a \<Rightarrow> 'a list" where
  "adjust_heap cmp xs first holeIndex len val =
     (case adjust_heap_loop cmp xs first len holeIndex holeIndex of
        (hole, secondChild, xs1) \<Rightarrow>
          if len mod 2 = 0 \<and> secondChild = (len - 2) div 2
          then push_heap cmp (xs1[first + hole := xs1 ! (first + (2 * (secondChild + 1) - 1))])
                 first (2 * (secondChild + 1) - 1) holeIndex val
          else push_heap cmp xs1 first hole holeIndex val)"

fun make_heap_loop :: "('a \<Rightarrow> 'a \<Rightarrow> bool) \<Rightarrow> 'a list \<Rightarrow> nat \<Rightarrow> nat \<Rightarrow> nat \<Rightarrow> 'a list" where
  "make_heap_loop cmp xs first len 0 = adjust_heap cmp xs first 0 len (xs ! first)"
| "make_heap_loop cmp xs first len (Suc parent) =
     make_heap_loop cmp (adjust_heap cmp xs first (Suc parent) len (xs ! (first + Suc parent)))
       first len parent"

definition make_heap :: "('a \<Rightarrow> 'a \<Rightarrow> bool) \<Rightarrow> 'a list \<Rightarrow> nat \<Rightarrow> nat \<Rightarrow> 'a list" where
  "make_heap cmp xs first lst =
     (if lst - first < 2 then xs
      else make_heap_loop cmp xs first (lst - first) ((lst - first - 2) div 2))"

definition pop_heap :: "('a \<Rightarrow> 'a \<Rightarrow> bool) \<Rightarrow> 'a list \<Rightarrow> nat \<Rightarrow> nat \<Rightarrow> nat \<Rightarrow> 'a list" where
  "pop_heap cmp xs first lst result =
     adjust_heap cmp (xs[result := xs ! first]) first 0 (lst - first) (xs ! result)"

function sort_heap :: "('a \<Rightarrow> 'a \<Rightarrow> bool) \<Rightarrow> 'a list \<Rightarrow> nat \<Rightarrow> nat \<Rightarrow> 'a list" where
  "sort_heap cmp xs first lst =
     (if lst - first > 1
      then sort_heap cmp (pop_heap cmp xs first (lst - 1) (lst - 1)) first (lst - 1)
      else xs)"
  by pat_completeness auto
termination
  by (relation "measure (\<lambda>(cmp, xs, first, lst). lst)") auto

text \<open>
  \<open>__partial_sort(first, last, last)\<close>: with the middle at the end of the range the
  selection loop of \<open>__heap_select\<close> is empty, which leaves \<open>__make_heap\<close> and
  \<open>__sort_heap\<close>.
\<close>

definition partial_sort :: "('a \<Rightarrow> 'a \<Rightarrow> bool) \<Rightarrow> 'a list \<Rightarrow> nat \<Rightarrow> nat \<Rightarrow> 'a list" where
  "partial_sort cmp xs first lst = sort_heap cmp (make_heap cmp xs first lst) first lst"

text \<open>\<open>std::__lg\<close>: the binary logarithm, rounded down.\<close>

fun lg :: "nat \<Rightarrow> nat" where
  "lg n = (if n < 2 then 0 else Suc (lg (n div 2)))"

text \<open>
  \<open>__introsort_loop\<close>: the recursive call sorts the part from the cut on, the loop goes
  on with the part before it.
\<close>

fun introsort_loop ::
    "('a \<Rightarrow> 'a \<Rightarrow> bool) \<Rightarrow> 'a list \<Rightarrow> nat \<Rightarrow> nat \<Rightarrow> nat \<Rightarrow> 'a list option" where
  "introsort_loop cmp xs first lst 0 =
     (if lst - first > 16 then Some (partial_sort cmp xs first lst) else Some xs)"
| "introsort_loop cmp xs first lst (Suc depth_limit) =
     (if lst - first > 16 then
        (case unguarded_partition_pivot cmp xs first lst of
           None \<Rightarrow> None
         | Some (cutpoint, xs1) \<Rightarrow>
             (case introsort_loop cmp xs1 cutpoint lst depth_limit of
                None \<Rightarrow> None
              | Some xs2 \<Rightarrow> introsort_loop cmp xs2 first cutpoint depth_limit))
      else Some xs)"

text \<open>
  The insertion sort. \<open>unguarded_linear_insert\<close> works on the reversed sorted prefix,
  walking from its last element towards the front; \<open>insertion_step\<close> is the loop body of
  \<open>__insertion_sort\<close>, \<open>unguarded_step\<close> the one of \<open>__unguarded_insertion_sort\<close>.
\<close>

fun unguarded_linear_insert :: "('a \<Rightarrow> 'a \<Rightarrow> bool) \<Rightarrow> 'a \<Rightarrow> 'a list \<Rightarrow> 'a list option" where
  "unguarded_linear_insert cmp val [] = None"
| "unguarded_linear_insert cmp val (nxt # rest) =
     (if cmp val nxt then map_option ((#) nxt) (unguarded_linear_insert cmp val rest)
      else Some (val # nxt # rest))"

definition insertion_step :: "('a \<Rightarrow> 'a \<Rightarrow> bool) \<Rightarrow> 'a list \<Rightarrow> 'a \<Rightarrow> 'a list option" where
  "insertion_step cmp prefix val =
     (if cmp val (hd prefix) then Some (val # prefix)
      else map_option rev (unguarded_linear_insert cmp val (rev prefix)))"

definition unguarded_step :: "('a \<Rightarrow> 'a \<Rightarrow> bool) \<Rightarrow> 'a list \<Rightarrow> 'a \<Rightarrow> 'a list option" where
  "unguarded_step cmp prefix val = map_option rev (unguarded_linear_insert cmp val (rev prefix))"

fun insertion_loop :: "('a list \<Rightarrow> 'a \<Rightarrow> 'a list option) \<Rightarrow> 'a list \<Rightarrow> 'a list \<Rightarrow> 'a list option" where
  "insertion_loop step prefix [] = Some prefix"
| "insertion_loop step prefix (val # rest) =
     (case step prefix val of None \<Rightarrow> None | Some prefix' \<Rightarrow> insertion_loop step prefix' rest)"

definition insertion_sort :: "('a \<Rightarrow> 'a \<Rightarrow> bool) \<Rightarrow> 'a list \<Rightarrow> 'a list option" where
  "insertion_sort cmp xs =
     (case xs of [] \<Rightarrow> Some [] | x # rest \<Rightarrow> insertion_loop (insertion_step cmp) [x] rest)"

definition final_insertion_sort :: "('a \<Rightarrow> 'a \<Rightarrow> bool) \<Rightarrow> 'a list \<Rightarrow> 'a list option" where
  "final_insertion_sort cmp xs =
     (if length xs > 16
      then (case insertion_sort cmp (take 16 xs) of
              None \<Rightarrow> None
            | Some prefix \<Rightarrow> insertion_loop (unguarded_step cmp) prefix (drop 16 xs))
      else insertion_sort cmp xs)"

definition std_sort_run :: "('a \<Rightarrow> 'a \<Rightarrow> bool) \<Rightarrow> 'a list \<Rightarrow> 'a list option" where
  "std_sort_run cmp xs =
     (if xs = [] then Some []
      else case introsort_loop cmp xs 0 (length xs) (2 * lg (length xs)) of
             None \<Rightarrow> None
           | Some ys \<Rightarrow> final_insertion_sort cmp ys)"

text \<open>
  The range after \<open>std::sort\<close>. Where the run has no defined behaviour the model leaves
  the range as it was. For the CRTC pool of findWorkingCombination the run is defined
  whenever the CRTC ids are pairwise different (\<open>std_sort_hint_first\<close>).
\<close>

definition std_sort :: "('a \<Rightarrow> 'a \<Rightarrow> bool) \<Rightarrow> 'a list \<Rightarrow> 'a list" where
  "std_sort cmp xs = (case std_sort_run cmp xs of Some ys \<Rightarrow> ys | None \<Rightarrow> xs)"

text \<open>
  commitCombination, first loop: attach every pipeline to the output of its connector,
  creating an output for a desktop connector that has none (\<open>pipeline->setup()\<close> changes
  nothing that is modelled).
\<close>

fun commitCombination_setup :: "nat list \<Rightarrow> DrmGpu \<Rightarrow> DrmGpu" where
  "commitCombination_setup [] s = s"
| "commitCombination_setup (pipeline # rest) s =
     (case findOutput s (pl_connector (pipelineObj s pipeline)) of
        Some output \<Rightarrow>
          commitCombination_setup rest (setOutput pipeline (Some output) (setPipeline output (Some pipeline) s))
      | None \<Rightarrow>
          if \<not> conn_isNonDesktop (connectorObj s (pl_connector (pipelineObj s pipeline)))
          then (case newDrmOutput pipeline s of
                  (output, s') \<Rightarrow> commitCombination_setup rest (emit (OutputEnabled output) s'))
          else commitCombination_setup rest s)"

text \<open>commitCombination, loop after a failed test: drop the outputs created for it.\<close>

fun commitCombination_undo :: "nat list \<Rightarrow> DrmGpu \<Rightarrow> DrmGpu" where
  "commitCombination_undo [] s = s"
| "commitCombination_undo (pipeline # rest) s =
     (let output = pl_output (pipelineObj s pipeline) in
      if (case output of None \<Rightarrow> True | Some out \<Rightarrow> out \<notin> set (m_outputs s))
      then commitCombination_undo rest (deleteOutput output (emit (OutputDisabled output) s))
      else commitCombination_undo rest s)"

text \<open>
  \<open>commitPipelines\<close> is the answer of \<open>DrmPipeline::commitPipelines(pipelines, Test)\<close> in
  the given device state: the kernel's verdict on the test commit.
\<close>

definition commitCombination :: "(DrmGpu \<Rightarrow> nat list \<Rightarrow> bool) \<Rightarrow> nat list \<Rightarrow> DrmGpu \<Rightarrow> bool \<times> DrmGpu" where
  "commitCombination commitPipelines pipelines s =
     (let s1 = commitCombination_setup pipelines s;
          ok = commitPipelines s1 pipelines;
          s2 = s1\<lparr>testCommits := testCommits s1 @ [(pipelines, ok)]\<rparr>
      in if ok then (True, s2) else (False, commitCombination_undo pipelines s2))"

text \<open>
  findWorkingCombination. \<open>forEncoders\<close> and \<open>forCrtcs\<close> are the two nested loops, the body
  of \<open>forCrtcs\<close> is the lambda \<open>recurse\<close>; each takes the encoders respectively CRTCs still
  to be visited. The encoder object fetched in the outer loop is not used by the code.
\<close>

function findWorkingCombination ::
    "(DrmGpu \<Rightarrow> nat list \<Rightarrow> bool) \<Rightarrow> nat list \<Rightarrow> nat list \<Rightarrow> DrmCrtc list \<Rightarrow> DrmGpu \<Rightarrow> nat list \<times> DrmGpu"
  and forEncoders ::
    "(DrmGpu \<Rightarrow> nat list \<Rightarrow> bool) \<Rightarrow> nat list \<Rightarrow> nat \<Rightarrow> nat list \<Rightarrow> DrmCrtc list \<Rightarrow> nat list \<Rightarrow> DrmGpu \<Rightarrow> nat list \<times> DrmGpu"
  and forCrtcs ::
    "(DrmGpu \<Rightarrow> nat list \<Rightarrow> bool) \<Rightarrow> nat list \<Rightarrow> nat \<Rightarrow> nat list \<Rightarrow> DrmCrtc list \<Rightarrow> DrmCrtc list \<Rightarrow> DrmGpu \<Rightarrow> nat list \<times> DrmGpu"
where
  "findWorkingCombination commitPipelines pipelines connectors crtcs s =
     (if connectors = [] \<or> crtcs = [] then
        (if pipelines = [] then (pipelines, s)
         else case commitCombination commitPipelines pipelines s of
                (ok, s') \<Rightarrow> if ok then (pipelines, s') else ([], s'))
      else
        let connector = hd connectors;
            connectors' = tl connectors;
            encoders = conn_encoders (connectorObj s connector);
            crtcs' = (if m_atomicModeSetting s
                      then std_sort (\<lambda>c1 c2. conn_CrtcId (connectorObj s connector) = crtc_id c1) crtcs
                      else crtcs)
        in forEncoders commitPipelines pipelines connector connectors' crtcs' encoders s)"
| "forEncoders commitPipelines pipelines connector connectors crtcs [] s = ([], s)"
| "forEncoders commitPipelines pipelines connector connectors crtcs (encoderId # encoders) s =
     (case forCrtcs commitPipelines pipelines connector connectors crtcs crtcs s of
        (workingPipelines, s') \<Rightarrow>
          if workingPipelines \<noteq> [] then (workingPipelines, s')
          else forEncoders commitPipelines pipelines connector connectors crtcs encoders s')"
| "forCrtcs commitPipelines pipelines connector connectors crtcs [] s = ([], s)"
| "forCrtcs commitPipelines pipelines connector connectors crtcs (crtc # rest) s =
     (case newDrmPipeline connector crtc s of
        (pipeline, s1) \<Rightarrow>
          (case findWorkingCombination commitPipelines (pipelines @ [pipeline]) connectors
                  (remove1 crtc crtcs) s1 of
             (ret, s2) \<Rightarrow>
               if ret \<noteq> [] then (ret, s2)
               else forCrtcs commitPipelines pipelines connector connectors crtcs rest
                      (deletePipeline (Some pipeline) s2)))"
  by pat_completeness auto
termination
  by (relation "inv_image (less_than <*lex*> less_than <*lex*> less_than)
       (\<lambda>x. case x of
          Inl (t, ps, cs, crtcs, s) \<Rightarrow> (2 * length cs, 0, 0)
        | Inr (Inl (t, ps, c, cs, crtcs, encs, s)) \<Rightarrow> (2 * length cs + 1, Suc (length encs), 0)
        | Inr (Inr (t, ps, c, cs, crtcs, rest, s)) \<Rightarrow> (2 * length cs + 1, 0, length rest))")
     (auto simp: neq_Nil_conv)

section \<open>Output removal\<close>

definition removeOutput :: "nat \<Rightarrow> DrmGpu \<Rightarrow> DrmGpu" where
  "removeOutput output s =
     (let s1 = s\<lparr>m_drmOutputs := remove1 output (m_drmOutputs s),
                 m_outputs := remove1 output (m_outputs s)\<rparr>;
          s2 = emit (OutputRemoved output) s1;
          pipeline = o_pipeline (outputObj s2 output);
          s3 = deleteOutput (Some output) s2;
          s4 = s3\<lparr>m_pipelines := removeOne_opt pipeline (m_pipelines s3)\<rparr>
      in deletePipeline pipeline s4)"

definition removeLeaseOutput :: "nat \<Rightarrow> DrmGpu \<Rightarrow> DrmGpu" where
  "removeLeaseOutput output s =
     (let s1 = s\<lparr>m_leaseOutputs := remove1 output (m_leaseOutputs s)\<rparr>;
          pipeline = lo_pipeline (leaseOutputObj s1 output);
          s2 = s1\<lparr>m_pipelines := remove1 pipeline (m_pipelines s1)\<rparr>
      in deletePipeline (Some pipeline) s2)"

section \<open>Lease manager\<close>

text \<open>
  Modelled from the spec: \<open>DrmLeaseOutput::addLeaseObjects\<close>, \<open>leased\<close> and \<open>leaseEnded\<close>
  are declared outside the DrmGpu source. The spec (4.5): the grant collects the underlying
  hardware object ids (connector, CRTC, plane) of each lease output, marks each lease
  output leased with the lease handle, and a revocation marks it unleased.
\<close>

definition addLeaseObjects :: "DrmGpu \<Rightarrow> nat \<Rightarrow> nat list \<Rightarrow> nat list" where
  "addLeaseObjects s output objects =
     (let pipeline = pipelineObj s (lo_pipeline (leaseOutputObj s output)) in
      objects @ [pl_connector pipeline, crtc_id (pl_crtc pipeline)]
        @ (case crtc_primaryPlane (pl_crtc pipeline) of None \<Rightarrow> [] | Some plane \<Rightarrow> [plane_id plane]))"

definition leased :: "nat \<Rightarrow> nat \<Rightarrow> DrmGpu \<Rightarrow> DrmGpu" where
  "leased output lease s =
     s\<lparr>leaseOutputObj := (leaseOutputObj s)(output := (leaseOutputObj s output)\<lparr>lo_lease := Some lease\<rparr>)\<rparr>"

definition leaseEnded :: "nat \<Rightarrow> DrmGpu \<Rightarrow> DrmGpu" where
  "leaseEnded output s =
     s\<lparr>leaseOutputObj := (leaseOutputObj s)(output := (leaseOutputObj s output)\<lparr>lo_lease := None\<rparr>)\<rparr>"

fun handleLeaseRevoked_outputs :: "nat list \<Rightarrow> DrmGpu \<Rightarrow> DrmGpu" where
  "handleLeaseRevoked_outputs [] s = s"
| "handleLeaseRevoked_outputs (output # conns) s =
     (if output \<in> set (m_leaseOutputs s) then handleLeaseRevoked_outputs conns (leaseEnded output s)
      else handleLeaseRevoked_outputs conns s)"

definition handleLeaseRevoked :: "nat \<Rightarrow> DrmGpu \<Rightarrow> DrmGpu" where
  "handleLeaseRevoked lease s =
     (let s1 = handleLeaseRevoked_outputs (lease_connectors (leaseObj s lease)) s in
      s1\<lparr>revokedLessees := revokedLessees s1 @ [lease_lesseeId (leaseObj s1 lease)]\<rparr>)"

text \<open>
  Modelled from the spec: \<open>DrmLeaseV1Interface::grant\<close> and \<open>deny\<close> belong to the protocol
  library. The spec (4.5, 5): a denied request has no persistent side effect beyond
  releasing the kernel handle; a lease that reconciliation finds dead is revoked, which
  marks its lease outputs unleased and releases the kernel lease. The device connects
  the \<open>leaseRevoked\<close> signal to handleLeaseRevoked in its constructor.
\<close>

definition grant :: "nat \<Rightarrow> int \<Rightarrow> nat \<Rightarrow> DrmGpu \<Rightarrow> DrmGpu" where
  "grant lease fd lesseeId s =
     s\<lparr>leaseObj := (leaseObj s)(lease :=
          (leaseObj s lease)\<lparr>lease_lesseeId := lesseeId, lease_answer := Granted fd lesseeId\<rparr>)\<rparr>"

definition deny :: "nat \<Rightarrow> DrmGpu \<Rightarrow> DrmGpu" where
  "deny lease s =
     (let s1 = (case lease_answer (leaseObj s lease) of
                  Granted fd lesseeId \<Rightarrow> handleLeaseRevoked lease s
                | _ \<Rightarrow> s)
      in s1\<lparr>leaseObj := (leaseObj s1)(lease :=
               (leaseObj s1 lease)\<lparr>lease_lesseeId := 0, lease_answer := Denied\<rparr>)\<rparr>)"

text \<open>
  handleLeaseRequest, first loop: the requested connectors that are lease outputs of this
  device without a lease, with the object ids collected from them.
\<close>

fun handleLeaseRequest_collect :: "DrmGpu \<Rightarrow> nat list \<Rightarrow> nat list \<Rightarrow> nat list \<Rightarrow> nat list \<times> nat list" where
  "handleLeaseRequest_collect s [] objects outputs = (objects, outputs)"
| "handleLeaseRequest_collect s (output # conns) objects outputs =
     (if output \<in> set (m_leaseOutputs s) \<and> lo_lease (leaseOutputObj s output) = None
      then handleLeaseRequest_collect s conns (addLeaseObjects s output objects) (outputs @ [output])
      else handleLeaseRequest_collect s conns objects outputs)"

fun handleLeaseRequest_leased :: "nat \<Rightarrow> nat list \<Rightarrow> DrmGpu \<Rightarrow> DrmGpu" where
  "handleLeaseRequest_leased lease [] s = s"
| "handleLeaseRequest_leased lease (output # outputs) s =
     handleLeaseRequest_leased lease outputs (leased output lease s)"

text \<open>
  \<open>drmModeCreateLease\<close> is the kernel's answer for the given object list: \<open>None\<close> for a
  negative return value, otherwise the lease fd and the lessee id.
\<close>

definition handleLeaseRequest :: "(nat list \<Rightarrow> (int \<times> nat) option) \<Rightarrow> nat \<Rightarrow> DrmGpu \<Rightarrow> DrmGpu" where
  "handleLeaseRequest drmModeCreateLease leaseRequest s =
     (case handleLeaseRequest_collect s (lease_connectors (leaseObj s leaseRequest)) [] [] of
        (objects, outputs) \<Rightarrow>
          let s1 = s\<lparr>leaseCalls := leaseCalls s @ [objects]\<rparr> in
          (case drmModeCreateLease objects of
             None \<Rightarrow> deny leaseRequest s1
           | Some (fd, lesseeId) \<Rightarrow>
               handleLeaseRequest_leased leaseRequest outputs (grant leaseRequest fd lesseeId s1)))"

section \<open>Refresh: updateOutputs\<close>

text \<open>
  What the kernel and the objects answer during one refresh: the connector ids of
  \<open>drmModeGetResources\<close> (\<open>None\<close> when it fails), the lessee ids of
  \<open>drmModeListLessees\<close>, the properties a newly constructed connector reads (\<open>None\<close> when
  its init fails), the properties an existing connector has after \<open>updateProperties\<close>, and
  the result of \<open>DrmOutput::initCursor\<close>. \<open>drmModeListLessees\<close> is taken to answer: the
  code reads \<open>lessees->count\<close> from its reply unchecked as soon as a lease is held.
\<close>

record DrmRefresh =
  drmModeGetResources_connectors :: "nat list option"
  drmModeListLessees :: "nat list"
  DrmConnector_init :: "nat \<Rightarrow> DrmConnector option"
  updateProperties :: "nat \<Rightarrow> DrmConnector \<Rightarrow> DrmConnector"
  initCursor :: "nat \<Rightarrow> bool"

text \<open>Leases whose lessee the kernel no longer lists are denied.\<close>

fun updateOutputs_lessees :: "nat list \<Rightarrow> nat list \<Rightarrow> DrmGpu \<Rightarrow> DrmGpu" where
  "updateOutputs_lessees lessees [] s = s"
| "updateOutputs_lessees lessees (leaseOutput # rest) s =
     (case lo_lease (leaseOutputObj s leaseOutput) of
        None \<Rightarrow> updateOutputs_lessees lessees rest s
      | Some lease \<Rightarrow>
          if lease_lesseeId (leaseObj s lease) \<in> set lessees
          then updateOutputs_lessees lessees rest s
          else updateOutputs_lessees lessees rest (deny lease s))"

text \<open>The loop over \<open>resources->connectors\<close>; the second component is \<open>removedConnectors\<close>.\<close>

fun updateOutputs_scan :: "DrmRefresh \<Rightarrow> nat list \<Rightarrow> DrmGpu \<times> nat list \<Rightarrow> DrmGpu \<times> nat list" where
  "updateOutputs_scan k [] (s, removedConnectors) = (s, removedConnectors)"
| "updateOutputs_scan k (currentConnector # rest) (s, removedConnectors) =
     (if currentConnector \<notin> set (m_connectors s) then
        (case DrmConnector_init k currentConnector of
           None \<Rightarrow> updateOutputs_scan k rest (s, removedConnectors)
         | Some c \<Rightarrow>
             if \<not> conn_isConnected c then updateOutputs_scan k rest (s, removedConnectors)
             else updateOutputs_scan k rest
                    (s\<lparr>m_connectors := m_connectors s @ [currentConnector],
                       connectorObj := (connectorObj s)(currentConnector := c)\<rparr>,
                     removedConnectors))
      else
        let s' = s\<lparr>connectorObj := (connectorObj s)(currentConnector :=
                      updateProperties k currentConnector (connectorObj s currentConnector))\<rparr>
        in if conn_isConnected (connectorObj s' currentConnector)
           then updateOutputs_scan k rest (s', remove1 currentConnector removedConnectors)
           else updateOutputs_scan k rest (s', removedConnectors))"

text \<open>The loop over \<open>removedConnectors\<close>.\<close>

fun updateOutputs_removed :: "nat list \<Rightarrow> DrmGpu \<Rightarrow> DrmGpu" where
  "updateOutputs_removed [] s = s"
| "updateOutputs_removed (connector # rest) s =
     (let s1 = (case findOutput s connector of
                  Some output \<Rightarrow> removeOutput output s
                | None \<Rightarrow> (case findLeaseOutput s connector of
                             Some leaseOutput \<Rightarrow> removeLeaseOutput leaseOutput s
                           | None \<Rightarrow> s))
      in updateOutputs_removed rest (s1\<lparr>m_connectors := remove1 connector (m_connectors s1)\<rparr>))"

text \<open>
  The loop over \<open>m_connectors\<close> that collects \<open>connectedConnectors\<close>
  (\<open>output->updateModes()\<close> changes nothing that is modelled).
\<close>

fun updateOutputs_connected :: "nat list \<Rightarrow> nat list \<Rightarrow> DrmGpu \<Rightarrow> DrmGpu \<times> nat list" where
  "updateOutputs_connected [] connectedConnectors s = (s, connectedConnectors)"
| "updateOutputs_connected (conn # rest) connectedConnectors s =
     (if conn_isConnected (connectorObj s conn)
      then updateOutputs_connected rest (connectedConnectors @ [conn]) s
      else case findOutput s conn of
             Some output \<Rightarrow> updateOutputs_connected rest connectedConnectors (removeOutput output s)
           | None \<Rightarrow>
               (case findLeaseOutput s conn of
                  Some leaseOutput \<Rightarrow>
                    updateOutputs_connected rest connectedConnectors (removeLeaseOutput leaseOutput s)
                | None \<Rightarrow> updateOutputs_connected rest connectedConnectors s))"

text \<open>
  Lines 402 to 470: lease reconciliation and connector inventory; returns the state and
  \<open>connectedConnectors\<close>. The property updates of CRTCs and planes change nothing that
  is modelled.
\<close>

definition updateOutputs_inventory :: "DrmRefresh \<Rightarrow> nat list \<Rightarrow> DrmGpu \<Rightarrow> DrmGpu \<times> nat list" where
  "updateOutputs_inventory k resources s =
     (let s1 = updateOutputs_lessees (drmModeListLessees k) (m_leaseOutputs s) s in
      case updateOutputs_scan k resources (s1, m_connectors s1) of
        (s2, removedConnectors) \<Rightarrow>
          let s3 = updateOutputs_removed removedConnectors s2
          in updateOutputs_connected (m_connectors s3) [] s3)"

text \<open>
  \<open>QMap<DrmOutput*, DrmPipeline*>\<close>: an association list ordered by key, one entry per
  key; a value may be the null pointer.
\<close>

fun qmap_insert :: "nat \<Rightarrow> 'v \<Rightarrow> (nat \<times> 'v) list \<Rightarrow> (nat \<times> 'v) list" where
  "qmap_insert k v [] = [(k, v)]"
| "qmap_insert k v ((k', v') # m) =
     (if k < k' then (k, v) # (k', v') # m
      else if k = k' then (k, v) # m
      else (k', v') # qmap_insert k v m)"

text \<open>Stash away the current pipelines of the desktop outputs.\<close>

fun updateOutputs_stash :: "nat list \<Rightarrow> (nat \<times> nat option) list \<Rightarrow> DrmGpu \<Rightarrow> (nat \<times> nat option) list \<times> DrmGpu" where
  "updateOutputs_stash [] oldPipelines s = (oldPipelines, s)"
| "updateOutputs_stash (output # rest) oldPipelines s =
     (let s1 = (if \<not> o_enabled (outputObj s output) then emit (OutputEnabled output) s else s);
          pipeline = o_pipeline (outputObj s1 output);
          s2 = s1\<lparr>m_pipelines := removeOne_opt pipeline (m_pipelines s1)\<rparr>
      in updateOutputs_stash rest (qmap_insert output pipeline oldPipelines)
           (setPipeline output None s2))"

text \<open>
  Do not touch resources that are leased: the connector and CRTC of every leased lease
  output leave the search lists; the pipeline of an unleased one leaves \<open>m_pipelines\<close>.
\<close>

fun updateOutputs_leased :: "nat list \<Rightarrow> nat list \<Rightarrow> DrmCrtc list \<Rightarrow> DrmGpu \<Rightarrow> nat list \<times> DrmCrtc list \<times> DrmGpu" where
  "updateOutputs_leased [] connectors crtcs s = (connectors, crtcs, s)"
| "updateOutputs_leased (output # rest) connectors crtcs s =
     (let pipeline = lo_pipeline (leaseOutputObj s output) in
      if lo_lease (leaseOutputObj s output) \<noteq> None
      then updateOutputs_leased rest (remove1 (pl_connector (pipelineObj s pipeline)) connectors)
             (remove1 (pl_crtc (pipelineObj s pipeline)) crtcs) s
      else updateOutputs_leased rest connectors crtcs
             (s\<lparr>m_pipelines := remove1 pipeline (m_pipelines s)\<rparr>))"

text \<open>
  Lines 472 to 500: the stash, the connector pre-sort of atomic mode, and the exclusion of
  leased resources; returns the stash, the two search lists and the state.
\<close>

definition updateOutputs_pool ::
    "nat list \<Rightarrow> DrmGpu \<Rightarrow> (nat \<times> nat option) list \<times> nat list \<times> DrmCrtc list \<times> DrmGpu" where
  "updateOutputs_pool connectedConnectors s =
     (case updateOutputs_stash (m_drmOutputs s) [] s of
        (oldPipelines, s1) \<Rightarrow>
          let connectedConnectors' =
                (if m_atomicModeSetting s1
                 then std_sort (\<lambda>c1 c2. conn_CrtcId (connectorObj s1 c1) > conn_CrtcId (connectorObj s1 c2))
                        connectedConnectors
                 else connectedConnectors)
          in case updateOutputs_leased (m_leaseOutputs s1) connectedConnectors' (m_crtcs s1) s1 of
               (connectors, crtcs, s2) \<Rightarrow> (oldPipelines, connectors, crtcs, s2))"

text \<open>
  Reverting to the old configuration: every stashed pipeline gets its output back and
  joins \<open>config\<close>. A stashed null pointer is dereferenced here: the result \<open>None\<close>.
\<close>

fun updateOutputs_revert :: "(nat \<times> nat option) list \<Rightarrow> nat list \<Rightarrow> DrmGpu \<Rightarrow> (nat list \<times> DrmGpu) option" where
  "updateOutputs_revert [] config s = Some (config, s)"
| "updateOutputs_revert ((output, pipeline) # rest) config s =
     (case pipeline of
        None \<Rightarrow> None
      | Some p \<Rightarrow> updateOutputs_revert rest (config @ [p]) (setOutput p (Some output) s))"

fun updateOutputs_unleased :: "DrmGpu \<Rightarrow> nat list \<Rightarrow> nat list \<Rightarrow> nat list" where
  "updateOutputs_unleased s [] config = config"
| "updateOutputs_unleased s (leaseOutput # rest) config =
     (if lo_lease (leaseOutputObj s leaseOutput) = None
      then updateOutputs_unleased s rest (config @ [lo_pipeline (leaseOutputObj s leaseOutput)])
      else updateOutputs_unleased s rest config)"

fun updateOutputs_discard :: "(nat \<times> nat option) list \<Rightarrow> DrmGpu \<Rightarrow> DrmGpu" where
  "updateOutputs_discard [] s = s"
| "updateOutputs_discard ((output, pipeline) # rest) s =
     updateOutputs_discard rest (deletePipeline pipeline s)"

text \<open>
  Lines 472 to 518: stash, search, and either the rollback or the disposal of the old
  pipelines; returns \<open>config\<close> and the state after \<open>m_pipelines << config\<close>.
\<close>

definition updateOutputs_negotiate ::
    "(DrmGpu \<Rightarrow> nat list \<Rightarrow> bool) \<Rightarrow> nat list \<Rightarrow> DrmGpu \<Rightarrow> (nat list \<times> DrmGpu) option" where
  "updateOutputs_negotiate commitPipelines connectedConnectors s =
     (case updateOutputs_pool connectedConnectors s of
        (oldPipelines, connectors, crtcs, s2) \<Rightarrow>
          (case findWorkingCombination commitPipelines [] connectors crtcs s2 of
             (config, s3) \<Rightarrow>
               (if config = [] \<and> connectors \<noteq> [] then
                  (case updateOutputs_revert oldPipelines config s3 of
                     None \<Rightarrow> None
                   | Some (config', s4) \<Rightarrow>
                       let config'' = updateOutputs_unleased s4 (m_leaseOutputs s4) config'
                       in Some (config'', s4\<lparr>m_pipelines := m_pipelines s4 @ config''\<rparr>))
                else
                  let s4 = updateOutputs_discard oldPipelines s3
                  in Some (config, s4\<lparr>m_pipelines := m_pipelines s4 @ config\<rparr>))))"

text \<open>
  Lines 520 to 551, over \<open>config\<close> in reverse: lease outputs for non-desktop connectors,
  restored state for known outputs, registration of new ones. A desktop pipeline without
  output is dereferenced in the last branch: the result \<open>None\<close>.
  \<open>new DrmLeaseOutput(pipeline, m_leaseDevice)\<close> starts without a lease.
\<close>

fun updateOutputs_apply :: "DrmRefresh \<Rightarrow> nat list \<Rightarrow> DrmGpu \<Rightarrow> DrmGpu option" where
  "updateOutputs_apply k [] s = Some s"
| "updateOutputs_apply k (pipeline # rest) s =
     (let output = pl_output (pipelineObj s pipeline);
          connector = pl_connector (pipelineObj s pipeline)
      in if conn_isNonDesktop (connectorObj s connector) then
           (let s1 = (case findLeaseOutput s connector of
                        Some leaseOutput \<Rightarrow>
                          s\<lparr>leaseOutputObj := (leaseOutputObj s)(leaseOutput :=
                               (leaseOutputObj s leaseOutput)\<lparr>lo_pipeline := pipeline\<rparr>)\<rparr>
                      | None \<Rightarrow>
                          s\<lparr>leaseOutputObj := (leaseOutputObj s)(nextLeaseOutput s :=
                               \<lparr>lo_pipeline = pipeline, lo_lease = None\<rparr>),
                            m_leaseOutputs := m_leaseOutputs s @ [nextLeaseOutput s],
                            nextLeaseOutput := Suc (nextLeaseOutput s)\<rparr>)
            in updateOutputs_apply k rest (setActive pipeline False s1))
         else case output of
           None \<Rightarrow> None
         | Some out \<Rightarrow>
             if out \<in> set (m_outputs s) then
               (if o_enabled (outputObj s out) then
                  (if \<not> o_dpmsOn (outputObj s out)
                   then updateOutputs_apply k rest (setActive pipeline False s)
                   else updateOutputs_apply k rest s)
                else updateOutputs_apply k rest
                       (emit (OutputDisabled (Some out)) (setActive pipeline False s)))
             else
               (let s1 = (if \<not> initCursor k out then s\<lparr>softwareCursorForced := True\<rparr> else s);
                    s2 = s1\<lparr>m_outputs := m_outputs s1 @ [out], m_drmOutputs := m_drmOutputs s1 @ [out]\<rparr>
                in updateOutputs_apply k rest (emit (OutputAdded out) s2)))"

text \<open>
  updateOutputs. \<open>waitIdle()\<close> at its start only pumps pending page-flip events and changes
  nothing that is modelled. The result is \<open>None\<close> when the code dereferences a null
  pointer, otherwise the return value and the new state.
\<close>

definition updateOutputs ::
    "DrmRefresh \<Rightarrow> (DrmGpu \<Rightarrow> nat list \<Rightarrow> bool) \<Rightarrow> DrmGpu \<Rightarrow> (bool \<times> DrmGpu) option" where
  "updateOutputs k commitPipelines s =
     (case drmModeGetResources_connectors k of
        None \<Rightarrow> Some (False, s)
      | Some resources \<Rightarrow>
          (case updateOutputs_inventory k resources s of
             (s1, connectedConnectors) \<Rightarrow>
               (case updateOutputs_negotiate commitPipelines connectedConnectors s1 of
                  None \<Rightarrow> None
                | Some (config, s2) \<Rightarrow>
                    (case updateOutputs_apply k (rev config) s2 of
                       None \<Rightarrow> None
                     | Some s3 \<Rightarrow> Some (True, s3\<lparr>leaseDeviceDrmMaster := True\<rparr>)))))"

section \<open>Example inputs\<close>

text \<open>
  A driver that grants the atomic capability and reports one cursor plane and one CRTC
  (id 50): no primary plane can be matched to the CRTC.
\<close>

definition cursorOnlyDriver :: DrmDriver where
  "cursorOnlyDriver =
     \<lparr>drmSetClientCap_ATOMIC = True,
      drmModeGetPlaneResources =
        Some [(\<lparr>plane_id = 30, plane_type = Cursor, plane_crtcs = [0], plane_CrtcId = 0,
                plane_formats = [DRM_FORMAT_ARGB8888]\<rparr>, True)],
      drmModeGetResources_crtcs = Some [50],
      DrmCrtc_init = (\<lambda>_. True)\<rparr>"

text \<open>A driver without the atomic capability, with one CRTC.\<close>

definition legacyDriver :: DrmDriver where
  "legacyDriver =
     \<lparr>drmSetClientCap_ATOMIC = False,
      drmModeGetPlaneResources = None,
      drmModeGetResources_crtcs = Some [50],
      DrmCrtc_init = (\<lambda>_. True)\<rparr>"

text \<open>A context for the flip handler: one device on fd 3 with output 1, monotonic clock.\<close>

definition flipContext :: FlipContext where
  "flipContext =
     \<lparr>platformIsDrmBackend = True,
      findGpuByFd = (\<lambda>fd. if fd = 3 then Some \<lparr>gpu_outputs = [1], gpu_presentationClock = CLOCK_MONOTONIC\<rparr>
                           else None),
      clock_gettime = (\<lambda>_. \<lparr>tv_sec = 100, tv_nsec = 5\<rparr>),
      steady_clock_now = 777\<rparr>"

text \<open>
  A device in atomic mode with CRTCs 40 and 41 and two connected desktop connectors:
  connector 10 is currently driven by CRTC 41, connector 11 by none.
\<close>

definition crtc40 :: DrmCrtc where
  "crtc40 = \<lparr>crtc_id = 40, crtc_pipeIndex = 0, crtc_primaryPlane = None\<rparr>"

definition crtc41 :: DrmCrtc where
  "crtc41 = \<lparr>crtc_id = 41, crtc_pipeIndex = 1, crtc_primaryPlane = None\<rparr>"

definition twoHeadGpu :: DrmGpu where
  "twoHeadGpu =
     DrmGpu_ctor\<lparr>m_atomicModeSetting := True, m_crtcs := [crtc40, crtc41], m_connectors := [10, 11],
       connectorObj := (\<lambda>c. if c = 10
          then \<lparr>conn_isConnected = True, conn_encoders = [1], conn_isNonDesktop = False, conn_CrtcId = 41\<rparr>
          else \<lparr>conn_isConnected = True, conn_encoders = [1, 2], conn_isNonDesktop = False, conn_CrtcId = 0\<rparr>)\<rparr>"

text \<open>A driver whose test commit accepts only configurations that use no CRTC but CRTC 40.\<close>

definition only40 :: "DrmGpu \<Rightarrow> nat list \<Rightarrow> bool" where
  "only40 s pipelines = list_all (\<lambda>p. crtc_id (pl_crtc (pipelineObj s p)) = 40) pipelines"

text \<open>
  A driver whose test commit accepts exactly the configurations that use CRTC 40 for the
  first pipeline and CRTC 41 for the second.
\<close>

definition inOrderOnly :: "DrmGpu \<Rightarrow> nat list \<Rightarrow> bool" where
  "inOrderOnly s pipelines = (map (\<lambda>p. crtc_id (pl_crtc (pipelineObj s p))) pipelines = [40, 41])"

text \<open>
  A device in atomic mode with two desktop outputs: output 1 on connector 10 with
  pipeline 1 (CRTC 40), output 2 on connector 11 with pipeline 2 (CRTC 41).
\<close>

definition dualOutputGpu :: DrmGpu where
  "dualOutputGpu =
     DrmGpu_ctor\<lparr>m_atomicModeSetting := True, m_crtcs := [crtc40, crtc41], m_connectors := [10, 11],
       m_pipelines := [1, 2], m_outputs := [1, 2], m_drmOutputs := [1, 2],
       connectorObj := (\<lambda>c. if c = 10
          then \<lparr>conn_isConnected = True, conn_encoders = [1], conn_isNonDesktop = False, conn_CrtcId = 40\<rparr>
          else \<lparr>conn_isConnected = True, conn_encoders = [1], conn_isNonDesktop = False, conn_CrtcId = 41\<rparr>),
       pipelineObj := (\<lambda>p. if p = 1
          then \<lparr>pl_connector = 10, pl_crtc = crtc40, pl_output = Some 1, pl_active = True\<rparr>
          else \<lparr>pl_connector = 11, pl_crtc = crtc41, pl_output = Some 2, pl_active = True\<rparr>),
       outputObj := (\<lambda>out. if out = 1
          then \<lparr>o_connector = 10, o_pipeline = Some 1, o_enabled = True, o_dpmsOn = True\<rparr>
          else \<lparr>o_connector = 11, o_pipeline = Some 2, o_enabled = True, o_dpmsOn = True\<rparr>),
       livePipelines := {1, 2}, nextPipeline := 3, liveOutputs := {1, 2}, nextOutput := 3\<rparr>"

text \<open>A refresh in which connector 11 has been unplugged.\<close>

definition unplugRefresh :: DrmRefresh where
  "unplugRefresh =
     \<lparr>drmModeGetResources_connectors = Some [10, 11], drmModeListLessees = [],
      DrmConnector_init = (\<lambda>_. None),
      updateProperties = (\<lambda>c props. if c = 11 then props\<lparr>conn_isConnected := False\<rparr> else props),
      initCursor = (\<lambda>_. True)\<rparr>"

text \<open>A driver that rejects every test commit.\<close>

definition rejectAll :: "DrmGpu \<Rightarrow> nat list \<Rightarrow> bool" where
  "rejectAll s pipelines = False"

text \<open>
  A device in atomic mode with two lease outputs on non-desktop connectors: lease output 1
  (connector 20, pipeline 1, CRTC 40) is leased through lease 7, lease output 2
  (connector 21, pipeline 2, CRTC 41) is free. Lease request 8 asks for both.
\<close>

definition leaseGpu :: DrmGpu where
  "leaseGpu =
     DrmGpu_ctor\<lparr>m_atomicModeSetting := True, m_crtcs := [crtc40, crtc41], m_connectors := [20, 21],
       m_pipelines := [1, 2], m_leaseOutputs := [1, 2],
       connectorObj := (\<lambda>c. \<lparr>conn_isConnected = True, conn_encoders = [1],
                               conn_isNonDesktop = True, conn_CrtcId = 0\<rparr>),
       pipelineObj := (\<lambda>p. if p = 1
          then \<lparr>pl_connector = 20, pl_crtc = crtc40, pl_output = None, pl_active = False\<rparr>
          else \<lparr>pl_connector = 21, pl_crtc = crtc41, pl_output = None, pl_active = False\<rparr>),
       leaseOutputObj := (\<lambda>out. if out = 1 then \<lparr>lo_pipeline = 1, lo_lease = Some 7\<rparr>
                                   else \<lparr>lo_pipeline = 2, lo_lease = None\<rparr>),
       leaseObj := (\<lambda>l. if l = 7
          then \<lparr>lease_connectors = [1], lease_lesseeId = 98, lease_answer = Granted 4 98\<rparr>
          else \<lparr>lease_connectors = [1, 2], lease_lesseeId = 0, lease_answer = Pending\<rparr>),
       livePipelines := {1, 2}, nextPipeline := 3, nextLeaseOutput := 3\<rparr>"

text \<open>A driver with the atomic capability, one primary plane and one CRTC (id 50).\<close>

definition atomicDriver :: DrmDriver where
  "atomicDriver =
     \<lparr>drmSetClientCap_ATOMIC = True,
      drmModeGetPlaneResources =
        Some [(\<lparr>plane_id = 31, plane_type = Primary, plane_crtcs = [0], plane_CrtcId = 50,
                plane_formats = [DRM_FORMAT_XRGB8888]\<rparr>, True)],
      drmModeGetResources_crtcs = Some [50],
      DrmCrtc_init = (\<lambda>_. True)\<rparr>"

text \<open>A refresh of the lease device: both connectors are listed and lessee 98 is alive.\<close>

definition leaseRefresh :: DrmRefresh where
  "leaseRefresh =
     \<lparr>drmModeGetResources_connectors = Some [20, 21], drmModeListLessees = [98],
      DrmConnector_init = (\<lambda>_. None), updateProperties = (\<lambda>c props. props),
      initCursor = (\<lambda>_. True)\<rparr>"

text \<open>
  A driver with the atomic capability, two CRTCs (ids 40 and 41) and a primary plane for
  each.
\<close>

definition twoCrtcDriver :: DrmDriver where
  "twoCrtcDriver =
     \<lparr>drmSetClientCap_ATOMIC = True,
      drmModeGetPlaneResources =
        Some [(\<lparr>plane_id = 31, plane_type = Primary, plane_crtcs = [0], plane_CrtcId = 0,
                plane_formats = [DRM_FORMAT_XRGB8888]\<rparr>, True),
              (\<lparr>plane_id = 32, plane_type = Primary, plane_crtcs = [1], plane_CrtcId = 0,
                plane_formats = [DRM_FORMAT_XRGB8888]\<rparr>, True)],
      drmModeGetResources_crtcs = Some [40, 41],
      DrmCrtc_init = (\<lambda>_. True)\<rparr>"

text \<open>
  A refresh in which the kernel lists the connectors 10 and 11, both connected desktop
  connectors with one encoder; connectors the device knows already keep their properties.
\<close>

definition plugRefresh :: DrmRefresh where
  "plugRefresh =
     \<lparr>drmModeGetResources_connectors = Some [10, 11], drmModeListLessees = [],
      DrmConnector_init = (\<lambda>c. Some \<lparr>conn_isConnected = True, conn_encoders = [1],
                                         conn_isNonDesktop = False, conn_CrtcId = 0\<rparr>),
      updateProperties = (\<lambda>c props. props),
      initCursor = (\<lambda>_. True)\<rparr>"

text \<open>A driver that accepts every test commit.\<close>

definition acceptAll :: "DrmGpu \<Rightarrow> nat list \<Rightarrow> bool" where
  "acceptAll s pipelines = True"

text \<open>
  The device of \<open>twoCrtcDriver\<close> after its first refresh, accepted by the kernel, and
  after a second refresh in which the kernel rejects every test commit.
\<close>

definition bootedGpu :: DrmGpu where
  "bootedGpu = snd (the (updateOutputs plugRefresh acceptAll (DrmGpu_new False twoCrtcDriver)))"

definition revertedGpu :: DrmGpu where
  "revertedGpu = snd (the (updateOutputs plugRefresh rejectAll bootedGpu))"

section \<open>Specification predicates\<close>

text \<open>
  What a negotiation search leaves untouched: the flag, the hardware inventory, the
  device's lists, the connector and lease stores, and connector and CRTC of every
  pipeline that existed before; addresses are only ever handed out upwards.
\<close>

definition search_frame :: "DrmGpu \<Rightarrow> DrmGpu \<Rightarrow> bool" where
  "search_frame s s' \<longleftrightarrow>
     m_atomicModeSetting s' = m_atomicModeSetting s \<and> m_planes s' = m_planes s \<and>
     m_crtcs s' = m_crtcs s \<and> m_connectors s' = m_connectors s \<and>
     m_pipelines s' = m_pipelines s \<and> m_outputs s' = m_outputs s \<and>
     m_drmOutputs s' = m_drmOutputs s \<and> m_leaseOutputs s' = m_leaseOutputs s \<and>
     connectorObj s' = connectorObj s \<and> leaseOutputObj s' = leaseOutputObj s \<and>
     leaseObj s' = leaseObj s \<and>
     nextPipeline s \<le> nextPipeline s' \<and>
     (\<forall>p. p < nextPipeline s \<longrightarrow>
          pl_connector (pipelineObj s' p) = pl_connector (pipelineObj s p) \<and>
          pl_crtc (pipelineObj s' p) = pl_crtc (pipelineObj s p))"

text \<open>
  The shape of a search result: empty, or the accumulated pipelines followed by newly
  allocated ones that bind the leading connectors, in order, to CRTCs taken from the pool
  without repetition.
\<close>

definition search_extends ::
    "nat list \<Rightarrow> nat list \<Rightarrow> DrmCrtc list \<Rightarrow> DrmGpu \<Rightarrow> nat list \<times> DrmGpu \<Rightarrow> bool" where
  "search_extends pipelines connectors crtcs s r \<longleftrightarrow>
     fst r = [] \<or>
     (\<exists>new. fst r = pipelines @ new \<and>
        (\<forall>p \<in> set new. nextPipeline s \<le> p \<and> p < nextPipeline (snd r)) \<and>
        distinct new \<and>
        map (\<lambda>p. pl_connector (pipelineObj (snd r) p)) new = take (length new) connectors \<and>
        mset (map (\<lambda>p. pl_crtc (pipelineObj (snd r) p)) new) \<subseteq># mset crtcs)"

text \<open>
  The test commits made by a search: every one but the last was rejected, and the search
  returns a non-empty result exactly when the last one was accepted, which then is the
  result.
\<close>

definition search_commits :: "DrmGpu \<Rightarrow> nat list \<times> DrmGpu \<Rightarrow> bool" where
  "search_commits s r \<longleftrightarrow>
     (\<exists>log. testCommits (snd r) = testCommits s @ log \<and>
        (\<forall>e \<in> set (butlast log). \<not> snd e) \<and>
        (if fst r = [] then \<forall>e \<in> set log. \<not> snd e else log \<noteq> [] \<and> last log = (fst r, True)))"

text \<open>
  The allocator's invariant (every live pipeline has an address below the next one handed
  out), and the effect of a search on the set of live pipelines: it grows by the new
  pipelines of the result and by nothing else.
\<close>

definition alloc_ok :: "DrmGpu \<Rightarrow> bool" where
  "alloc_ok s \<longleftrightarrow> (\<forall>p \<in> livePipelines s. p < nextPipeline s)"

definition search_live :: "nat list \<Rightarrow> DrmGpu \<Rightarrow> nat list \<times> DrmGpu \<Rightarrow> bool" where
  "search_live pipelines s r \<longleftrightarrow>
     alloc_ok (snd r) \<and>
     livePipelines (snd r) =
       (if fst r = [] then livePipelines s
        else livePipelines s \<union> set (drop (length pipelines) (fst r)))"

text \<open>
  The states a device passes through after a given one: any sequence of refreshes, lease
  requests, lease revocations and output removals.
\<close>

inductive lifetime :: "DrmGpu \<Rightarrow> DrmGpu \<Rightarrow> bool" where
  lifetime_start: "lifetime s s"
| lifetime_updateOutputs:
    "lifetime s s1 \<Longrightarrow> updateOutputs k commitPipelines s1 = Some (ret, s2) \<Longrightarrow> lifetime s s2"
| lifetime_handleLeaseRequest:
    "lifetime s s1 \<Longrightarrow> lifetime s (handleLeaseRequest drmModeCreateLease leaseRequest s1)"
| lifetime_handleLeaseRevoked:
    "lifetime s s1 \<Longrightarrow> lifetime s (handleLeaseRevoked lease s1)"
| lifetime_removeOutput:
    "lifetime s s1 \<Longrightarrow> lifetime s (removeOutput output s1)"
| lifetime_removeLeaseOutput:
    "lifetime s s1 \<Longrightarrow> lifetime s (removeLeaseOutput output s1)"

text \<open>The mode flag and the hardware inventory fixed at resource discovery.\<close>

definition hardware :: "DrmGpu \<Rightarrow> bool \<times> DrmPlane list \<times> DrmCrtc list" where
  "hardware s = (m_atomicModeSetting s, m_planes s, m_crtcs s)"

text \<open>
  What the search of a refresh is given and what it returns: the connector list that
  updateOutputs passes to findWorkingCombination (after inventory, stash and the removal
  of leased resources) and the pipeline list that comes back.
\<close>

definition refreshSearch ::
    "DrmRefresh \<Rightarrow> (DrmGpu \<Rightarrow> nat list \<Rightarrow> bool) \<Rightarrow> nat list \<Rightarrow> DrmGpu \<Rightarrow> nat list \<times> nat list" where
  "refreshSearch k commitPipelines resources s =
     (case updateOutputs_inventory k resources s of
        (s1, connectedConnectors) \<Rightarrow>
          (case updateOutputs_pool connectedConnectors s1 of
             (oldPipelines, connectors, crtcs, s2) \<Rightarrow>
               (connectors, fst (findWorkingCombination commitPipelines [] connectors crtcs s2))))"

section \<open>Format support\<close>

lemma allPrimaryContain_iff:
  "allPrimaryContain planes f \<longleftrightarrow> (\<forall>p \<in> set planes. plane_type p = Primary \<longrightarrow> f \<in> set (plane_formats p))"
  by (induction planes) auto

text \<open>
  C10. In legacy mode isFormatSupported answers true exactly for XRGB8888 and ARGB8888;
  in atomic mode it answers true exactly when every primary plane lists the format, so
  a device without primary planes supports every format.
\<close>

theorem C10_isFormatSupported:
  "(\<not> m_atomicModeSetting s \<longrightarrow>
      isFormatSupported s f = (f = DRM_FORMAT_XRGB8888 \<or> f = DRM_FORMAT_ARGB8888))
   \<and> (m_atomicModeSetting s \<longrightarrow>
      isFormatSupported s f =
        (\<forall>p \<in> set (m_planes s). plane_type p = Primary \<longrightarrow> f \<in> set (plane_formats p)))
   \<and> (m_atomicModeSetting s \<and> (\<forall>p \<in> set (m_planes s). plane_type p \<noteq> Primary)
        \<longrightarrow> isFormatSupported s f)"
  by (auto simp: isFormatSupported_def allPrimaryContain_iff)

theorem C10_isFormatSupported_witness:
  "isFormatSupported (DrmGpu_ctor\<lparr>m_atomicModeSetting := False\<rparr>) DRM_FORMAT_XRGB8888
   \<and> \<not> isFormatSupported (DrmGpu_ctor\<lparr>m_atomicModeSetting := False\<rparr>) 0x36314752
   \<and> \<not> isFormatSupported
         (DrmGpu_ctor\<lparr>m_atomicModeSetting := True,
            m_planes := [\<lparr>plane_id = 31, plane_type = Primary, plane_crtcs = [0], plane_CrtcId = 0,
                          plane_formats = [DRM_FORMAT_XRGB8888]\<rparr>]\<rparr>) DRM_FORMAT_ARGB8888
   \<and> isFormatSupported
         (DrmGpu_ctor\<lparr>m_atomicModeSetting := True,
            m_planes := [\<lparr>plane_id = 30, plane_type = Cursor, plane_crtcs = [0], plane_CrtcId = 0,
                          plane_formats = []\<rparr>]\<rparr>) 0x36314752"
  using C10_isFormatSupported [of "DrmGpu_ctor\<lparr>m_atomicModeSetting := False\<rparr>" DRM_FORMAT_XRGB8888]
        C10_isFormatSupported [of "DrmGpu_ctor\<lparr>m_atomicModeSetting := False\<rparr>" "0x36314752"]
        C10_isFormatSupported [of "DrmGpu_ctor\<lparr>m_atomicModeSetting := True,
            m_planes := [\<lparr>plane_id = 31, plane_type = Primary, plane_crtcs = [0], plane_CrtcId = 0,
                          plane_formats = [DRM_FORMAT_XRGB8888]\<rparr>]\<rparr>" DRM_FORMAT_ARGB8888]
        C10_isFormatSupported [of "DrmGpu_ctor\<lparr>m_atomicModeSetting := True,
            m_planes := [\<lparr>plane_id = 30, plane_type = Cursor, plane_crtcs = [0], plane_CrtcId = 0,
                          plane_formats = []\<rparr>]\<rparr>" "0x36314752"]
  by (simp add: DrmGpu_ctor_def DRM_FORMAT_XRGB8888_def DRM_FORMAT_ARGB8888_def)

section \<open>Timestamp conversion\<close>

text \<open>
  C8. With the same source and target clock the conversion returns the seconds times
  10^9 plus the nanoseconds of the timestamp, whatever the clocks read, and samples no
  clock; when that sum fits the signed 64-bit counter, its signed value is the sum itself.
\<close>

theorem C8_convertTimestamp_identity:
  "convertTimestamp gettime clk clk ts = (tv_sec ts * 1000000000 + tv_nsec ts, [])
   \<and> (- (2 ^ 63) \<le> sint (tv_sec ts) * 1000000000 + sint (tv_nsec ts)
        \<and> sint (tv_sec ts) * 1000000000 + sint (tv_nsec ts) < 2 ^ 63
      \<longrightarrow> sint (fst (convertTimestamp gettime clk clk ts))
            = sint (tv_sec ts) * 1000000000 + sint (tv_nsec ts))"
proof -
  have eq: "convertTimestamp gettime clk clk ts = (tv_sec ts * 1000000000 + tv_nsec ts, [])"
    by (simp add: convertTimestamp_def convertTimestamp_timespec_def)
  have "sint (tv_sec ts * 1000000000 + tv_nsec ts) = sint (tv_sec ts) * 1000000000 + sint (tv_nsec ts)"
    if lo: "- (2 ^ 63) \<le> sint (tv_sec ts) * 1000000000 + sint (tv_nsec ts)"
    and hi: "sint (tv_sec ts) * 1000000000 + sint (tv_nsec ts) < 2 ^ 63"
  proof -
    have "tv_sec ts * 1000000000 + tv_nsec ts
          = word_of_int (sint (tv_sec ts) * 1000000000 + sint (tv_nsec ts))"
      by simp
    then have "sint (tv_sec ts * 1000000000 + tv_nsec ts)
          = signed_take_bit 63 (sint (tv_sec ts) * 1000000000 + sint (tv_nsec ts))"
      by (simp only: sint_sbintrunc') simp
    also have "\<dots> = sint (tv_sec ts) * 1000000000 + sint (tv_nsec ts)"
      using lo hi by (simp add: signed_take_bit_int_eq_self)
    finally show ?thesis .
  qed
  with eq show ?thesis by simp
qed

theorem C8_convertTimestamp_identity_witness:
  "convertTimestamp (\<lambda>_. \<lparr>tv_sec = 9, tv_nsec = 9\<rparr>) CLOCK_REALTIME CLOCK_REALTIME
       \<lparr>tv_sec = 2, tv_nsec = 5\<rparr> = (2000000005, [])
   \<and> sint (fst (convertTimestamp (\<lambda>_. \<lparr>tv_sec = 9, tv_nsec = 9\<rparr>) CLOCK_REALTIME CLOCK_REALTIME
       \<lparr>tv_sec = 2, tv_nsec = 5\<rparr>)) = 2000000005"
  using C8_convertTimestamp_identity
          [of "\<lambda>_. \<lparr>tv_sec = 9, tv_nsec = 9\<rparr>" CLOCK_REALTIME "\<lparr>tv_sec = 2, tv_nsec = 5\<rparr>"]
  by simp

section \<open>Page-flip handler\<close>

text \<open>
  C9. When the handler reaches the timestamp conversion (the platform is a DRM backend,
  the device of the fd is found and still lists the output) and the converted timestamp
  is zero, it marks the output flipped and notifies the render loop of the completed
  frame with the current steady-clock time.
\<close>

theorem C9_pageFlipHandler_zero_timestamp:
  assumes "platformIsDrmBackend ctx"
      and "findGpuByFd ctx fd = Some gpu"
      and "output \<in> set (gpu_outputs gpu)"
      and "fst (convertTimestamp (clock_gettime ctx) (gpu_presentationClock gpu) CLOCK_MONOTONIC
                  \<lparr>tv_sec = ucast sec, tv_nsec = ucast (usec * 1000)\<rparr>) = 0"
    shows "pageFlipHandler ctx fd frame sec usec output
           = [PageFlipped output, NotifyFrameCompleted output (steady_clock_now ctx)]"
  using assms by (simp add: pageFlipHandler_def)

theorem C9_pageFlipHandler_zero_timestamp_witness:
  "pageFlipHandler flipContext 3 0 0 0 1 = [PageFlipped 1, NotifyFrameCompleted 1 777]"
proof -
  have a: "platformIsDrmBackend flipContext"
    by (simp add: flipContext_def)
  have b: "findGpuByFd flipContext 3 = Some \<lparr>gpu_outputs = [1], gpu_presentationClock = CLOCK_MONOTONIC\<rparr>"
    by (simp add: flipContext_def)
  have c: "(1::nat) \<in> set (gpu_outputs \<lparr>gpu_outputs = [1], gpu_presentationClock = CLOCK_MONOTONIC\<rparr>)"
    by simp
  have d: "fst (convertTimestamp (clock_gettime flipContext)
                 (gpu_presentationClock \<lparr>gpu_outputs = [1], gpu_presentationClock = CLOCK_MONOTONIC\<rparr>)
                 CLOCK_MONOTONIC \<lparr>tv_sec = ucast (0::uint32_t), tv_nsec = ucast ((0::uint32_t) * 1000)\<rparr>) = 0"
    by (simp add: convertTimestamp_def convertTimestamp_timespec_def)
  have "steady_clock_now flipContext = 777"
    by (simp add: flipContext_def)
  with C9_pageFlipHandler_zero_timestamp [OF a b c d, of 0] show ?thesis
    by simp
qed

section \<open>The negotiation search: what it leaves untouched\<close>

declare findWorkingCombination.simps [simp del]

lemma findWorkingCombination_base:
  "cs = [] \<or> crtcs = [] \<Longrightarrow>
   findWorkingCombination t ps cs crtcs s =
     (if ps = [] then (ps, s)
      else case commitCombination t ps s of (ok, s') \<Rightarrow> if ok then (ps, s') else ([], s'))"
  by (subst findWorkingCombination.simps) simp

lemma findWorkingCombination_step:
  "cs \<noteq> [] \<Longrightarrow> crtcs \<noteq> [] \<Longrightarrow>
   findWorkingCombination t ps cs crtcs s =
     forEncoders t ps (hd cs) (tl cs)
       (if m_atomicModeSetting s
        then std_sort (\<lambda>c1 c2. conn_CrtcId (connectorObj s (hd cs)) = crtc_id c1) crtcs
        else crtcs)
       (conn_encoders (connectorObj s (hd cs))) s"
  by (subst findWorkingCombination.simps) (simp add: Let_def)

lemma search_frame_refl: "search_frame s s"
  by (simp add: search_frame_def)

lemma search_frame_trans: "search_frame s s1 \<Longrightarrow> search_frame s1 s2 \<Longrightarrow> search_frame s s2"
  by (simp add: search_frame_def)

lemma search_frame_newDrmPipeline: "search_frame s (snd (newDrmPipeline c x s))"
  by (simp add: search_frame_def newDrmPipeline_def)

lemma search_frame_deletePipeline: "search_frame s (deletePipeline p s)"
  by (simp add: search_frame_def deletePipeline_def split: option.splits)

lemma search_frame_setup: "search_frame s (commitCombination_setup ps s)"
proof (induction ps arbitrary: s)
  case Nil
  show ?case by (simp add: search_frame_refl)
next
  case (Cons p ps)
  have a: "search_frame s (setOutput p (Some out) (setPipeline out (Some p) s))" for out
    by (simp add: search_frame_def setOutput_def setPipeline_def)
  have b: "search_frame s (emit (OutputEnabled (fst (newDrmOutput p s))) (snd (newDrmOutput p s)))"
    by (simp add: search_frame_def newDrmOutput_def emit_def)
  show ?case
    using Cons.IH a b
    by (auto simp: split: option.splits prod.splits intro: search_frame_trans search_frame_refl)
qed

lemma search_frame_undo: "search_frame s (commitCombination_undo ps s)"
proof (induction ps arbitrary: s)
  case Nil
  show ?case by (simp add: search_frame_refl)
next
  case (Cons p ps)
  have a: "search_frame s (deleteOutput out (emit sig s))" for out sig
    by (simp add: search_frame_def deleteOutput_def emit_def split: option.splits)
  show ?case
    using Cons.IH a
    by (auto simp: Let_def intro: search_frame_trans)
qed

lemma search_frame_commitCombination: "search_frame s (snd (commitCombination t ps s))"
proof -
  have a: "search_frame s1 (s1\<lparr>testCommits := x\<rparr>)" for s1 x
    by (simp add: search_frame_def)
  have b: "search_frame s ((commitCombination_setup ps s)\<lparr>testCommits := x\<rparr>)" for x
    by (rule search_frame_trans [OF search_frame_setup a])
  have c: "search_frame s (commitCombination_undo ps ((commitCombination_setup ps s)\<lparr>testCommits := x\<rparr>))" for x
    by (rule search_frame_trans [OF b search_frame_undo])
  show ?thesis
    unfolding commitCombination_def Let_def
    using b c by simp
qed

lemma search_frame_search:
  "search_frame s (snd (findWorkingCombination t ps cs crtcs s))"
  "search_frame s (snd (forEncoders t ps c cs' crtcs' encs s))"
  "search_frame s (snd (forCrtcs t ps c cs' crtcs' rest s))"
proof (induction t ps cs crtcs s and t ps c cs' crtcs' encs s and t ps c cs' crtcs' rest s
       rule: findWorkingCombination_forEncoders_forCrtcs.induct)
  case (1 t ps cs crtcs s)
  show ?case
  proof (cases "cs = [] \<or> crtcs = []")
    case True
    then show ?thesis
      using search_frame_commitCombination [of s t ps]
      by (auto simp: findWorkingCombination.simps [of t ps cs crtcs s] search_frame_refl split: prod.splits)
  next
    case False
    then show ?thesis
      using 1 by (simp add: findWorkingCombination.simps [of t ps cs crtcs s] Let_def)
  qed
next
  case (2 t ps c cs crtcs s)
  show ?case by (simp add: search_frame_refl)
next
  case (3 t ps c cs crtcs e encs s)
  obtain r s1 where r: "forCrtcs t ps c cs crtcs crtcs s = (r, s1)" by force
  show ?case
  proof (cases "r = []")
    case True
    from 3(2) [of r s1] r True have "search_frame s1 (snd (forEncoders t ps c cs crtcs encs s1))" by simp
    with 3(1) r True show ?thesis by (auto intro: search_frame_trans)
  next
    case False
    with 3(1) r show ?thesis by simp
  qed
next
  case (4 t ps c cs crtcs s)
  show ?case by (simp add: search_frame_refl)
next
  case (5 t ps c cs crtcs crtc rest s)
  obtain p s1 where n: "newDrmPipeline c crtc s = (p, s1)" by force
  obtain r s2 where r: "findWorkingCombination t (ps @ [p]) cs (remove1 crtc crtcs) s1 = (r, s2)" by force
  have f1: "search_frame s s1" using search_frame_newDrmPipeline [of s c crtc] n by simp
  have f2: "search_frame s1 s2" using 5(1) [of p s1] n r by simp
  show ?case
  proof (cases "r = []")
    case True
    have "search_frame (deletePipeline (Some p) s2) (snd (forCrtcs t ps c cs crtcs rest (deletePipeline (Some p) s2)))"
      using 5(2) [of p s1 r s2] n r True by simp
    with f1 f2 search_frame_deletePipeline [of s2 "Some p"] n r True show ?thesis
      by (auto intro: search_frame_trans)
  next
    case False
    with f1 f2 n r show ?thesis by (auto intro: search_frame_trans)
  qed
qed

section \<open>The library sort returns a permutation of the range\<close>

declare scan_up.simps [simp del] unguarded_partition.simps [simp del] push_heap.simps [simp del]
  adjust_heap_loop.simps [simp del] sort_heap.simps [simp del] lg.simps [simp del]

lemma scan_up_bounds: "scan_up cmp xs pivot first = Some i \<Longrightarrow> first \<le> i \<and> i < length xs"
  by (induction cmp xs pivot first rule: scan_up.induct)
     (subst (asm) scan_up.simps, auto split: if_splits)

lemma scan_down_le: "scan_down cmp xs pivot lst = Some i \<Longrightarrow> i \<le> lst"
  by (induction lst) (auto split: if_splits)

lemma length_iter_swap [simp]: "length (iter_swap a b xs) = length xs"
  by (simp add: iter_swap_def)

lemma mset_iter_swap: "a < length xs \<Longrightarrow> b < length xs \<Longrightarrow> mset (iter_swap a b xs) = mset xs"
  unfolding iter_swap_def using mset_swap [of b xs a] by simp

lemma length_move_median [simp]: "length (move_median_to_first cmp r a b c xs) = length xs"
  by (simp add: move_median_to_first_def)

lemma mset_move_median:
  "r < length xs \<Longrightarrow> a < length xs \<Longrightarrow> b < length xs \<Longrightarrow> c < length xs \<Longrightarrow>
     mset (move_median_to_first cmp r a b c xs) = mset xs"
  by (simp add: move_median_to_first_def mset_iter_swap)

lemma unguarded_partition_perm:
  assumes "unguarded_partition cmp pivot xs first lst = Some (c, ys)" and "lst \<le> length xs"
  shows "length ys = length xs \<and> mset ys = mset xs \<and> first \<le> c \<and> c < length xs"
  using assms
proof (induction cmp pivot xs first lst rule: unguarded_partition.induct)
  case (1 cmp pivot xs first lst)
  from "1.prems"(1) obtain f l l' where f: "scan_up cmp xs pivot first = Some f"
      and l: "lst = Suc l" and l': "scan_down cmp xs pivot l = Some l'"
      and res: "(if \<not> f < l' then Some (f, xs)
                 else unguarded_partition cmp pivot (iter_swap f l' xs) (Suc f) l') = Some (c, ys)"
    by (subst (asm) unguarded_partition.simps) (auto split: option.splits nat.splits)
  from scan_up_bounds [OF f] have fb: "first \<le> f" "f < length xs" by auto
  from scan_down_le [OF l'] l "1.prems"(2) have lb: "l' < length xs" by auto
  show ?case
  proof (cases "f < l'")
    case False
    with res fb show ?thesis by auto
  next
    case True
    with res have r: "unguarded_partition cmp pivot (iter_swap f l' xs) (Suc f) l' = Some (c, ys)"
      by simp
    from True have nn: "\<not> \<not> f < l'" by simp
    from "1.IH" [OF f l l' nn r] lb
    have "length ys = length (iter_swap f l' xs) \<and> mset ys = mset (iter_swap f l' xs)
          \<and> Suc f \<le> c \<and> c < length (iter_swap f l' xs)" by simp
    with fb lb show ?thesis by (simp add: mset_iter_swap)
  qed
qed

lemma unguarded_partition_pivot_perm:
  assumes "unguarded_partition_pivot cmp xs first lst = Some (c, ys)"
      and "lst \<le> length xs" and "lst - first > 16"
  shows "length ys = length xs \<and> mset ys = mset xs \<and> first < c \<and> c < length xs"
proof -
  let ?xs1 = "move_median_to_first cmp first (Suc first) (first + (lst - first) div 2) (lst - 1) xs"
  from assms(1) have r: "unguarded_partition cmp first ?xs1 (Suc first) lst = Some (c, ys)"
    by (simp add: unguarded_partition_pivot_def Let_def)
  from assms(2,3) have m: "mset ?xs1 = mset xs"
    by (intro mset_move_median) auto
  from unguarded_partition_perm [OF r] assms(2) m show ?thesis by auto
qed

lemma mset_move:
  "i < length xs \<Longrightarrow> j < length xs \<Longrightarrow> mset (xs[i := xs ! j, j := v]) = mset (xs[i := v])"
  by (cases "i = j") (simp_all add: mset_update nth_list_update)

lemma push_heap_perm:
  "first + holeIndex < length xs \<Longrightarrow>
     length (push_heap cmp xs first holeIndex topIndex val) = length xs
     \<and> mset (push_heap cmp xs first holeIndex topIndex val) = mset (xs[first + holeIndex := val])"
proof (induction cmp xs first holeIndex topIndex val rule: push_heap.induct)
  case (1 cmp xs first holeIndex topIndex val)
  let ?parent = "(holeIndex - 1) div 2"
  show ?case
  proof (cases "holeIndex > topIndex \<and> cmp (xs ! (first + ?parent)) val")
    case False
    then show ?thesis by (subst (1 2) push_heap.simps) auto
  next
    case True
    have p: "first + ?parent < length xs" using "1.prems" by auto
    from "1.IH" [OF True] p
    have ih: "length (push_heap cmp (xs[first + holeIndex := xs ! (first + ?parent)]) first ?parent topIndex val)
                = length xs
            \<and> mset (push_heap cmp (xs[first + holeIndex := xs ! (first + ?parent)]) first ?parent topIndex val)
                = mset (xs[first + holeIndex := xs ! (first + ?parent), first + ?parent := val])"
      by simp
    have "push_heap cmp xs first holeIndex topIndex val
          = push_heap cmp (xs[first + holeIndex := xs ! (first + ?parent)]) first ?parent topIndex val"
      using True by (subst push_heap.simps) simp
    with ih mset_move [OF "1.prems" p, of val] show ?thesis by simp
  qed
qed

lemma adjust_heap_loop_perm:
  assumes "adjust_heap_loop cmp xs first len holeIndex secondChild = (hole, sc, ys)"
      and "first + len \<le> length xs" and "holeIndex < len" and "holeIndex = secondChild"
  shows "length ys = length xs \<and> hole = sc \<and> hole < len
         \<and> mset (ys[first + hole := v]) = mset (xs[first + holeIndex := v])"
  using assms
proof (induction cmp xs first len holeIndex secondChild rule: adjust_heap_loop.induct)
  case (1 cmp xs first len holeIndex secondChild)
  show ?case
  proof (cases "secondChild < (len - 1) div 2")
    case False
    with "1.prems" show ?thesis by (subst (asm) adjust_heap_loop.simps) auto
  next
    case True
    define sc0 where "sc0 = 2 * (secondChild + 1)"
    define sc1 where "sc1 = (if cmp (xs ! (first + sc0)) (xs ! (first + (sc0 - 1))) then sc0 - 1 else sc0)"
    from True have b: "sc0 < len" unfolding sc0_def by auto
    then have b1: "sc1 < len" unfolding sc1_def by auto
    from "1.prems"(1) True
    have r: "adjust_heap_loop cmp (xs[first + holeIndex := xs ! (first + sc1)]) first len sc1 sc1
             = (hole, sc, ys)"
      by (subst (asm) adjust_heap_loop.simps) (auto simp: Let_def sc0_def sc1_def split: if_splits)
    from "1.IH" [OF True sc0_def sc1_def r] "1.prems"(2) b1
    have ih: "length ys = length xs \<and> hole = sc \<and> hole < len
         \<and> mset (ys[first + hole := v]) = mset (xs[first + holeIndex := xs ! (first + sc1), first + sc1 := v])"
      by auto
    have "first + holeIndex < length xs" "first + sc1 < length xs"
      using "1.prems"(2,3) b1 by auto
    from mset_move [OF this, of v] ih show ?thesis by auto
  qed
qed

lemma adjust_heap_perm:
  assumes "first + len \<le> length xs" and "holeIndex < len"
  shows "length (adjust_heap cmp xs first holeIndex len val) = length xs
         \<and> mset (adjust_heap cmp xs first holeIndex len val) = mset (xs[first + holeIndex := val])"
proof -
  obtain hole sc ys where l: "adjust_heap_loop cmp xs first len holeIndex holeIndex = (hole, sc, ys)"
    by (cases "adjust_heap_loop cmp xs first len holeIndex holeIndex") auto
  from adjust_heap_loop_perm [OF l assms refl]
  have f: "length ys = length xs" "hole = sc" "hole < len"
      "\<And>v. mset (ys[first + hole := v]) = mset (xs[first + holeIndex := v])"
    using adjust_heap_loop_perm [OF l assms refl] by auto
  show ?thesis
  proof (cases "len mod 2 = 0 \<and> sc = (len - 2) div 2")
    case False
    then have "adjust_heap cmp xs first holeIndex len val = push_heap cmp ys first hole holeIndex val"
      by (auto simp: adjust_heap_def l)
    moreover have "first + hole < length ys" using f assms by auto
    ultimately show ?thesis using push_heap_perm [of first hole ys cmp holeIndex val] f by simp
  next
    case True
    let ?j = "2 * (sc + 1) - 1"
    from True f(3) have j: "?j < len" by auto presburger
    have e: "adjust_heap cmp xs first holeIndex len val
             = push_heap cmp (ys[first + hole := ys ! (first + ?j)]) first ?j holeIndex val"
      using True by (simp add: adjust_heap_def l)
    have i1: "first + hole < length ys" and i2: "first + ?j < length ys"
      using f assms j by auto
    from push_heap_perm [of first ?j "ys[first + hole := ys ! (first + ?j)]" cmp holeIndex val] i2
    have "length (adjust_heap cmp xs first holeIndex len val) = length ys
          \<and> mset (adjust_heap cmp xs first holeIndex len val)
            = mset (ys[first + hole := ys ! (first + ?j), first + ?j := val])"
      unfolding e by simp
    with mset_move [OF i1 i2, of val] f show ?thesis by simp
  qed
qed

lemma make_heap_loop_perm:
  "first + len \<le> length xs \<Longrightarrow> parent < len \<Longrightarrow>
     length (make_heap_loop cmp xs first len parent) = length xs
     \<and> mset (make_heap_loop cmp xs first len parent) = mset xs"
proof (induction parent arbitrary: xs)
  case 0
  from adjust_heap_perm [of first len xs 0 cmp "xs ! first"] 0 show ?case by simp
next
  case (Suc parent)
  let ?ys = "adjust_heap cmp xs first (Suc parent) len (xs ! (first + Suc parent))"
  from adjust_heap_perm [of first len xs "Suc parent" cmp "xs ! (first + Suc parent)"] Suc.prems
  have a: "length ?ys = length xs" "mset ?ys = mset xs" by simp_all
  from Suc.IH [of ?ys] Suc.prems a show ?case by simp
qed

lemma make_heap_perm:
  "lst \<le> length xs \<Longrightarrow>
     length (make_heap cmp xs first lst) = length xs \<and> mset (make_heap cmp xs first lst) = mset xs"
  using make_heap_loop_perm [of first "lst - first" xs "(lst - first - 2) div 2" cmp]
  by (auto simp: make_heap_def)

lemma pop_heap_perm:
  assumes "lst \<le> length xs" and "first < lst" and "result < length xs"
  shows "length (pop_heap cmp xs first lst result) = length xs
         \<and> mset (pop_heap cmp xs first lst result) = mset xs"
proof -
  from adjust_heap_perm [of first "lst - first" "xs[result := xs ! first]" 0 cmp "xs ! result"] assms
  have "length (pop_heap cmp xs first lst result) = length xs
        \<and> mset (pop_heap cmp xs first lst result) = mset (xs[result := xs ! first, first := xs ! result])"
    by (simp add: pop_heap_def)
  moreover have "first < length xs" using assms by simp
  ultimately show ?thesis using mset_swap [of first xs result] assms(3) by simp
qed

lemma sort_heap_perm:
  "lst \<le> length xs \<Longrightarrow>
     length (sort_heap cmp xs first lst) = length xs \<and> mset (sort_heap cmp xs first lst) = mset xs"
proof (induction cmp xs first lst rule: sort_heap.induct)
  case (1 cmp xs first lst)
  show ?case
  proof (cases "lst - first > 1")
    case False
    then show ?thesis by (subst (1 2) sort_heap.simps) simp
  next
    case True
    let ?ys = "pop_heap cmp xs first (lst - 1) (lst - 1)"
    from pop_heap_perm [of "lst - 1" xs first "lst - 1" cmp] True "1.prems"
    have p: "length ?ys = length xs" "mset ?ys = mset xs" by auto
    from "1.IH" [OF True] p "1.prems"
    have "length (sort_heap cmp ?ys first (lst - 1)) = length xs
          \<and> mset (sort_heap cmp ?ys first (lst - 1)) = mset xs" by simp
    moreover have "sort_heap cmp xs first lst = sort_heap cmp ?ys first (lst - 1)"
      using True by (subst sort_heap.simps) simp
    ultimately show ?thesis by simp
  qed
qed

lemma partial_sort_perm:
  "lst \<le> length xs \<Longrightarrow>
     length (partial_sort cmp xs first lst) = length xs \<and> mset (partial_sort cmp xs first lst) = mset xs"
  using make_heap_perm [of lst xs cmp first]
        sort_heap_perm [of lst "make_heap cmp xs first lst" cmp first]
  by (simp add: partial_sort_def)

lemma introsort_loop_perm:
  "introsort_loop cmp xs first lst depth_limit = Some ys \<Longrightarrow> lst \<le> length xs \<Longrightarrow>
     length ys = length xs \<and> mset ys = mset xs"
proof (induction depth_limit arbitrary: xs first lst ys)
  case 0
  then show ?case using partial_sort_perm [of lst xs cmp first] by (auto split: if_splits)
next
  case (Suc d)
  show ?case
  proof (cases "lst - first > 16")
    case False
    with Suc.prems show ?thesis by simp
  next
    case True
    with Suc.prems(1) obtain c xs1 xs2 where
        p: "unguarded_partition_pivot cmp xs first lst = Some (c, xs1)"
        and r1: "introsort_loop cmp xs1 c lst d = Some xs2"
        and r2: "introsort_loop cmp xs2 first c d = Some ys"
      by (auto split: option.splits)
    from unguarded_partition_pivot_perm [OF p Suc.prems(2) True]
    have a: "length xs1 = length xs" "mset xs1 = mset xs" "c < length xs" by auto
    from Suc.IH [OF r1] a Suc.prems(2) have b: "length xs2 = length xs" "mset xs2 = mset xs" by auto
    from Suc.IH [OF r2] a b show ?thesis by auto
  qed
qed

lemma unguarded_linear_insert_mset:
  "unguarded_linear_insert cmp v xs = Some ys \<Longrightarrow> mset ys = add_mset v (mset xs)"
  by (induction xs arbitrary: ys) (auto split: if_splits)

lemma insertion_step_mset: "insertion_step cmp prefix v = Some ys \<Longrightarrow> mset ys = add_mset v (mset prefix)"
  using unguarded_linear_insert_mset [of cmp v "rev prefix"]
  by (auto simp: insertion_step_def split: if_splits)

lemma unguarded_step_mset: "unguarded_step cmp prefix v = Some ys \<Longrightarrow> mset ys = add_mset v (mset prefix)"
  using unguarded_linear_insert_mset [of cmp v "rev prefix"]
  by (auto simp: unguarded_step_def)

lemma insertion_loop_mset:
  "(\<And>prefix v ys. step prefix v = Some ys \<Longrightarrow> mset ys = add_mset v (mset prefix)) \<Longrightarrow>
     insertion_loop step prefix xs = Some ys \<Longrightarrow> mset ys = mset prefix + mset xs"
proof (induction xs arbitrary: prefix)
  case Nil
  then show ?case by simp
next
  case (Cons x xs)
  from Cons.prems(2) obtain p where s: "step prefix x = Some p" and r: "insertion_loop step p xs = Some ys"
    by (auto split: option.splits)
  from Cons.IH [OF Cons.prems(1) r] Cons.prems(1) [OF s] show ?case by simp
qed

lemma insertion_sort_mset: "insertion_sort cmp xs = Some ys \<Longrightarrow> mset ys = mset xs"
  using insertion_loop_mset [of "insertion_step cmp" "[hd xs]" "tl xs" ys] insertion_step_mset [of cmp]
  by (cases xs) (auto simp: insertion_sort_def)

lemma final_insertion_sort_mset: "final_insertion_sort cmp xs = Some ys \<Longrightarrow> mset ys = mset xs"
proof (cases "length xs > 16")
  case False
  assume "final_insertion_sort cmp xs = Some ys"
  with False show ?thesis by (simp add: final_insertion_sort_def insertion_sort_mset)
next
  case True
  assume "final_insertion_sort cmp xs = Some ys"
  with True obtain p where a: "insertion_sort cmp (take 16 xs) = Some p"
      and b: "insertion_loop (unguarded_step cmp) p (drop 16 xs) = Some ys"
    by (auto simp: final_insertion_sort_def split: option.splits)
  from insertion_loop_mset [of "unguarded_step cmp" p "drop 16 xs" ys] b unguarded_step_mset [of cmp]
  have "mset ys = mset p + mset (drop 16 xs)" by blast
  also have "\<dots> = mset (take 16 xs) + mset (drop 16 xs)" using insertion_sort_mset [OF a] by simp
  also have "\<dots> = mset xs"
    using mset_append [of "take 16 xs" "drop 16 xs"] by (simp only: append_take_drop_id)
  finally show ?thesis .
qed

lemma std_sort_run_mset: "std_sort_run cmp xs = Some ys \<Longrightarrow> mset ys = mset xs"
proof (cases "xs = []")
  case True
  assume "std_sort_run cmp xs = Some ys"
  with True show ?thesis by (simp add: std_sort_run_def)
next
  case False
  assume "std_sort_run cmp xs = Some ys"
  with False obtain zs where a: "introsort_loop cmp xs 0 (length xs) (2 * lg (length xs)) = Some zs"
      and b: "final_insertion_sort cmp zs = Some ys"
    by (auto simp: std_sort_run_def split: option.splits)
  from introsort_loop_perm [OF a] final_insertion_sort_mset [OF b] show ?thesis by simp
qed

lemma mset_std_sort: "mset (std_sort cmp xs) = mset xs"
  by (auto simp: std_sort_def std_sort_run_mset split: option.splits)

lemma set_std_sort: "set (std_sort cmp xs) = set xs"
  by (metis mset_std_sort set_mset_mset)

lemma distinct_std_sort: "distinct (std_sort cmp xs) = distinct xs"
  by (metis mset_std_sort distinct_count_atmost_1 set_mset_mset count_mset)

lemma std_sort_Nil_iff: "std_sort cmp xs = [] \<longleftrightarrow> xs = []"
  by (metis mset_std_sort mset_zero_iff)

section \<open>The negotiation search: the shape of its result\<close>

lemma search_extends_empty: "search_extends ps cs crtcs s ([], s')"
  by (simp add: search_extends_def)

lemma search_extends_base: "search_extends ps cs crtcs s (ps, s')"
  by (simp add: search_extends_def)

lemma search_extends_mono:
  "search_extends ps cs crtcs s1 r \<Longrightarrow> nextPipeline s \<le> nextPipeline s1 \<Longrightarrow> search_extends ps cs crtcs s r"
  by (fastforce simp: search_extends_def)

lemma search_extends_mset:
  "search_extends ps cs crtcs s r \<Longrightarrow> mset crtcs = mset crtcs' \<Longrightarrow> search_extends ps cs crtcs' s r"
  by (simp add: search_extends_def)

lemma search_extends_step:
  assumes n: "newDrmPipeline c crtc s = (p, s1)"
      and ext: "search_extends (ps @ [p]) cs (remove1 crtc crtcs) s1 (r, s2)"
      and fr: "search_frame s1 s2"
      and mem: "crtc \<in> set crtcs"
      and ne: "r \<noteq> []"
    shows "search_extends ps (c # cs) crtcs s (r, s2)"
proof -
  from n have p: "p = nextPipeline s" and n1: "nextPipeline s1 = Suc p"
    and c1: "pl_connector (pipelineObj s1 p) = c" and x1: "pl_crtc (pipelineObj s1 p) = crtc"
    by (auto simp: newDrmPipeline_def)
  from fr n1 have c2: "pl_connector (pipelineObj s2 p) = pl_connector (pipelineObj s1 p)"
    and x2: "pl_crtc (pipelineObj s2 p) = pl_crtc (pipelineObj s1 p)"
    and le: "nextPipeline s1 \<le> nextPipeline s2"
    by (auto simp: search_frame_def)
  from ext ne obtain new where r: "r = (ps @ [p]) @ new"
    and b: "\<forall>q \<in> set new. nextPipeline s1 \<le> q \<and> q < nextPipeline s2"
    and d: "distinct new"
    and m: "map (\<lambda>q. pl_connector (pipelineObj s2 q)) new = take (length new) cs"
    and x: "mset (map (\<lambda>q. pl_crtc (pipelineObj s2 q)) new) \<subseteq># mset (remove1 crtc crtcs)"
    by (auto simp: search_extends_def)
  have r': "r = ps @ (p # new)" using r by simp
  have b': "\<forall>q \<in> set (p # new). nextPipeline s \<le> q \<and> q < nextPipeline s2"
    using b p n1 le by auto
  have d': "distinct (p # new)" using d b n1 by auto
  have m': "map (\<lambda>q. pl_connector (pipelineObj s2 q)) (p # new) = take (length (p # new)) (c # cs)"
    using m c1 c2 by simp
  have "add_mset crtc (mset (map (\<lambda>q. pl_crtc (pipelineObj s2 q)) new)) \<subseteq># mset crtcs"
    using x mem by (simp add: insert_subset_eq_iff)
  then have x': "mset (map (\<lambda>q. pl_crtc (pipelineObj s2 q)) (p # new)) \<subseteq># mset crtcs"
    using x1 x2 by simp
  show ?thesis
    unfolding search_extends_def fst_conv snd_conv
    using r' b' d' m' x' by blast
qed

lemma search_extends_search:
  "search_extends ps cs crtcs s (findWorkingCombination t ps cs crtcs s)"
  "search_extends ps (c # cs') crtcs' s (forEncoders t ps c cs' crtcs' encs s)"
  "set rest \<subseteq> set crtcs' \<longrightarrow> search_extends ps (c # cs') crtcs' s (forCrtcs t ps c cs' crtcs' rest s)"
proof (induction t ps cs crtcs s and t ps c cs' crtcs' encs s and t ps c cs' crtcs' rest s
       rule: findWorkingCombination_forEncoders_forCrtcs.induct)
  case (1 t ps cs crtcs s)
  show ?case
  proof (cases "cs = [] \<or> crtcs = []")
    case True
    then show ?thesis
      by (auto simp: findWorkingCombination.simps [of t ps cs crtcs s] search_extends_empty
            search_extends_base split: prod.splits)
  next
    case False
    then have cs: "cs = hd cs # tl cs" by simp
    from 1 [OF False refl refl refl refl]
    have "search_extends ps (hd cs # tl cs)
            (if m_atomicModeSetting s
             then std_sort (\<lambda>c1 c2. conn_CrtcId (connectorObj s (hd cs)) = crtc_id c1) crtcs else crtcs) s
            (findWorkingCombination t ps cs crtcs s)"
      using False by (simp add: findWorkingCombination.simps [of t ps cs crtcs s] Let_def)
    then have "search_extends ps (hd cs # tl cs) crtcs s (findWorkingCombination t ps cs crtcs s)"
      by (rule search_extends_mset) (simp add: mset_std_sort)
    with cs show ?thesis by simp
  qed
next
  case (2 t ps c cs crtcs s)
  show ?case by (simp add: search_extends_empty)
next
  case (3 t ps c cs crtcs e encs s)
  obtain r s1 where r: "forCrtcs t ps c cs crtcs crtcs s = (r, s1)" by force
  show ?case
  proof (cases "r = []")
    case True
    from 3(2) [of r s1] r True
    have "search_extends ps (c # cs) crtcs s1 (forEncoders t ps c cs crtcs encs s1)" by simp
    moreover have "nextPipeline s \<le> nextPipeline s1"
      using search_frame_search(3) [of s t ps c cs crtcs crtcs] r by (simp add: search_frame_def)
    ultimately show ?thesis using r True by (auto intro: search_extends_mono)
  next
    case False
    with 3(1) r show ?thesis by simp
  qed
next
  case (4 t ps c cs crtcs s)
  show ?case by (simp add: search_extends_empty)
next
  case (5 t ps c cs crtcs crtc rest s)
  obtain p s1 where n: "newDrmPipeline c crtc s = (p, s1)" by force
  obtain r s2 where r: "findWorkingCombination t (ps @ [p]) cs (remove1 crtc crtcs) s1 = (r, s2)" by force
  have f1: "search_frame s s1" using search_frame_newDrmPipeline [of s c crtc] n by simp
  have f2: "search_frame s1 s2" using search_frame_search(1) [of s1 t "ps @ [p]" cs "remove1 crtc crtcs"] r by simp
  have e: "search_extends (ps @ [p]) cs (remove1 crtc crtcs) s1 (r, s2)" using 5(1) [of p s1] n r by simp
  show ?case
  proof
    assume sub: "set (crtc # rest) \<subseteq> set crtcs"
    show "search_extends ps (c # cs) crtcs s (forCrtcs t ps c cs crtcs (crtc # rest) s)"
    proof (cases "r = []")
      case True
      have "search_extends ps (c # cs) crtcs (deletePipeline (Some p) s2)
              (forCrtcs t ps c cs crtcs rest (deletePipeline (Some p) s2))"
        using 5(2) [of p s1 r s2] n r True sub by simp
      moreover have "nextPipeline s \<le> nextPipeline (deletePipeline (Some p) s2)"
        using f1 f2 search_frame_deletePipeline [of s2 "Some p"] by (simp add: search_frame_def)
      ultimately show ?thesis using n r True by (auto intro: search_extends_mono)
    next
      case False
      with search_extends_step [OF n e f2 _ False] sub n r show ?thesis by simp
    qed
  qed
qed

section \<open>Pairwise disjoint pipelines\<close>




section \<open>The hinted CRTC is tried first\<close>

lemma amo_unique:
  "length (filter P xs) \<le> 1 \<Longrightarrow> i < length xs \<Longrightarrow> j < length xs \<Longrightarrow> P (xs ! i) \<Longrightarrow> P (xs ! j)
     \<Longrightarrow> i = j"
proof (induction xs arbitrary: i j)
  case Nil
  then show ?case by simp
next
  case (Cons x xs)
  show ?case
  proof (cases "P x")
    case True
    with Cons.prems(1) have "filter P xs = []" by simp
    then have none: "\<And>m. m < length xs \<Longrightarrow> \<not> P (xs ! m)"
      by (auto simp: filter_empty_conv)
    from none [of "i - 1"] Cons.prems(2,4) have "i = 0" by (cases i) auto
    moreover from none [of "j - 1"] Cons.prems(3,5) have "j = 0" by (cases j) auto
    ultimately show ?thesis by simp
  next
    case False
    with Cons.prems(4,5) obtain i' j' where ij: "i = Suc i'" "j = Suc j'"
      by (cases i; cases j) auto
    from False Cons.prems(1) have "length (filter P xs) \<le> 1" by simp
    from Cons.IH [OF this, of i' j'] Cons.prems ij show ?thesis by simp
  qed
qed

lemma amo_mset: "mset ys = mset xs \<Longrightarrow> length (filter P ys) = length (filter P xs)"
  by (metis mset_filter size_mset)

lemma nth_iter_swap:
  "a < length xs \<Longrightarrow> b < length xs \<Longrightarrow>
     iter_swap a b xs ! m = (if m = b then xs ! a else if m = a then xs ! b else xs ! m)"
  by (simp add: iter_swap_def nth_list_update)

lemma scan_up_hint:
  assumes "f < length xs" and "P (xs ! f) \<Longrightarrow> Suc f < length xs \<and> \<not> P (xs ! Suc f)"
  shows "scan_up (\<lambda>a b. P a) xs pv f = Some (if P (xs ! f) then Suc f else f)"
proof (cases "P (xs ! f)")
  case False
  with assms(1) show ?thesis by (subst scan_up.simps) simp
next
  case True
  with assms(2) have "scan_up (\<lambda>a b. P a) xs pv (Suc f) = Some (Suc f)"
    by (subst scan_up.simps) simp
  with True assms(1) show ?thesis by (subst scan_up.simps) simp
qed

lemma scan_down_hint: "\<not> P (xs ! pv) \<Longrightarrow> scan_down (\<lambda>a b. P a) xs pv l = Some l"
  by (cases l) auto

lemma unguarded_partition_hint:
  assumes "length (filter P xs) \<le> 1"
      and "\<not> P (xs ! pv)" and "pv < f" and "f \<le> lst" and "lst \<le> length xs"
      and "(lst < length xs \<and> \<not> P (xs ! lst)) \<or> Suc f < lst"
  shows "\<exists>c ys. unguarded_partition (\<lambda>a b. P a) pv xs f lst = Some (c, ys)
           \<and> length ys = length xs
           \<and> (\<forall>m. m < f \<or> lst \<le> m \<longrightarrow> ys ! m = xs ! m)
           \<and> f \<le> c \<and> c \<le> lst
           \<and> 2 * c \<le> f + lst + (if \<exists>m. f \<le> m \<and> m < lst \<and> P (xs ! m) then 2 else 0)
           \<and> f + lst \<le> 2 * c + 1
           \<and> (\<forall>m. f \<le> m \<and> m < lst \<and> P (xs ! m) \<longrightarrow> (\<exists>m'. f \<le> m' \<and> m' < c \<and> P (ys ! m')))"
  using assms
proof (induction "lst - f" arbitrary: xs f lst rule: less_induct)
  case less
  note amo = less.prems(1) and npv = less.prems(2) and pv = less.prems(3)
   and fl = less.prems(4) and ll = less.prems(5) and J = less.prems(6)
  from J fl ll have flen: "f < length xs" by auto
  from pv fl obtain l where l: "lst = Suc l" by (cases lst) auto
  have skip: "Suc f < length xs \<and> \<not> P (xs ! Suc f) \<and> f < lst" if "P (xs ! f)"
  proof -
    from that J fl ll have a: "f < lst" "Suc f < length xs" by (auto simp: le_less)
    from amo_unique [OF amo flen a(2) that] have "\<not> P (xs ! Suc f)" by auto
    with a show ?thesis by simp
  qed
  define f' where "f' = (if P (xs ! f) then Suc f else f)"
  have f'1: "f \<le> f'" "f' \<le> Suc f" "f' \<le> lst" "f' < length xs" "\<not> P (xs ! f')"
    using skip fl flen by (auto simp: f'_def)
  have su: "scan_up (\<lambda>a b. P a) xs pv f = Some f'"
    unfolding f'_def using skip by (intro scan_up_hint flen) simp
  have sd: "scan_down (\<lambda>a b. P a) xs pv l = Some l"
    using scan_down_hint [of P xs pv l] npv by simp
  have unf: "unguarded_partition (\<lambda>a b. P a) pv xs f lst
             = (if \<not> f' < l then Some (f', xs)
                else unguarded_partition (\<lambda>a b. P a) pv (iter_swap f' l xs) (Suc f') l)"
    by (subst unguarded_partition.simps) (simp add: su sd l)
  have uniq: "m = f" if "P (xs ! f)" "m < length xs" "P (xs ! m)" for m
    using amo_unique [OF amo that(2) flen that(3) that(1)] .
  show ?case
  proof (cases "f' < l")
    case False
    have hint: "\<exists>m'. f \<le> m' \<and> m' < f' \<and> P (xs ! m')" if m: "f \<le> m" "m < lst" "P (xs ! m)" for m
    proof (cases "P (xs ! f)")
      case True
      then show ?thesis by (auto simp: f'_def)
    next
      case nP: False
      then have "f' = f" by (simp add: f'_def)
      with False l m have "m = f" by auto
      with nP m show ?thesis by simp
    qed
    have up: "2 * f' \<le> f + lst + (if \<exists>m. f \<le> m \<and> m < lst \<and> P (xs ! m) then 2 else 0)"
    proof (cases "P (xs ! f)")
      case True
      with skip have "\<exists>m. f \<le> m \<and> m < lst \<and> P (xs ! m)" by auto
      with f'1 fl show ?thesis by auto
    next
      case nP: False
      then have "f' = f" by (simp add: f'_def)
      with fl show ?thesis by auto
    qed
    from False unf have "unguarded_partition (\<lambda>a b. P a) pv xs f lst = Some (f', xs)" by simp
    moreover have "f + lst \<le> 2 * f' + 1" using False l f'1 by auto
    ultimately show ?thesis using f'1 up hint by auto
  next
    case True
    let ?zs = "iter_swap f' l xs"
    from l ll have llen: "l < length xs" by simp
    have nz: "?zs ! m = (if m = l then xs ! f' else if m = f' then xs ! l else xs ! m)" for m
      using nth_iter_swap [OF f'1(4) llen] by simp
    have amo': "length (filter P ?zs) \<le> 1"
      using amo amo_mset [OF mset_iter_swap [OF f'1(4) llen], of P] by simp
    have npv': "\<not> P (?zs ! pv)" using npv pv f'1 True by (simp add: nz)
    have J': "(l < length ?zs \<and> \<not> P (?zs ! l)) \<or> Suc (Suc f') < l"
      using llen f'1 by (simp add: nz)
    have "l - Suc f' < lst - f" using True f'1 l by auto
    from less.hyps [OF this amo' npv' _ _ _ J'] pv f'1 True llen
    obtain c ys where r: "unguarded_partition (\<lambda>a b. P a) pv ?zs (Suc f') l = Some (c, ys)"
        and len: "length ys = length xs"
        and out: "\<And>m. m < Suc f' \<or> l \<le> m \<Longrightarrow> ys ! m = ?zs ! m"
        and cb: "Suc f' \<le> c" "c \<le> l"
        and up: "2 * c \<le> Suc f' + l + (if \<exists>m. Suc f' \<le> m \<and> m < l \<and> P (?zs ! m) then 2 else 0)"
        and lo: "Suc f' + l \<le> 2 * c + 1"
        and hint: "\<And>m. Suc f' \<le> m \<and> m < l \<and> P (?zs ! m) \<Longrightarrow> \<exists>m'. Suc f' \<le> m' \<and> m' < c \<and> P (ys ! m')"
      by auto blast
    from True unf r have res: "unguarded_partition (\<lambda>a b. P a) pv xs f lst = Some (c, ys)" by simp
    have out': "ys ! m = xs ! m" if "m < f \<or> lst \<le> m" for m
      using out [of m] that f'1 l True by (auto simp: nz)
    define h' where "h' \<longleftrightarrow> (\<exists>m. Suc f' \<le> m \<and> m < l \<and> P (?zs ! m))"
    define h where "h \<longleftrightarrow> (\<exists>m. f \<le> m \<and> m < lst \<and> P (xs ! m))"
    from up have uph: "2 * c \<le> Suc f' + l + (if h' then 2 else 0)"
      unfolding h'_def .
    have "2 * c \<le> f + lst + (if h then 2 else 0)"
    proof (cases "P (xs ! f)")
      case Pf: True
      then have e: "f' = Suc f" by (simp add: f'_def)
      have "\<not> h'"
      proof
        assume h'
        then obtain m where m: "Suc f' \<le> m" "m < l" "P (?zs ! m)" unfolding h'_def by blast
        then have "P (xs ! m)" by (simp add: nz)
        from uniq [OF Pf _ this] m llen e show False by simp
      qed
      moreover from Pf skip have h unfolding h_def by auto
      ultimately show ?thesis using uph e l by simp
    next
      case nP: False
      then have e: "f' = f" by (simp add: f'_def)
      have "h" if h'
      proof -
        from that obtain m where m: "Suc f' \<le> m" "m < l" "P (?zs ! m)" unfolding h'_def by blast
        then have "P (xs ! m)" by (simp add: nz)
        with m e l show ?thesis unfolding h_def by (intro exI [of _ m]) simp
      qed
      then show ?thesis using uph e l by (cases h') auto
    qed
    then have up': "2 * c \<le> f + lst + (if \<exists>m. f \<le> m \<and> m < lst \<and> P (xs ! m) then 2 else 0)"
      unfolding h_def .
    have hint': "\<exists>m'. f \<le> m' \<and> m' < c \<and> P (ys ! m')" if m: "f \<le> m" "m < lst" "P (xs ! m)" for m
    proof (cases "P (xs ! f)")
      case Pf: True
      from uniq [OF Pf _ m(3)] m ll have "m = f" by simp
      moreover have "f' = Suc f" using Pf by (simp add: f'_def)
      then have "ys ! f = xs ! f" using out [of f] nz [of f] True by simp
      ultimately show ?thesis using m cb f'1 by (intro exI [of _ f]) simp
    next
      case nP: False
      then have e: "f' = f" by (simp add: f'_def)
      show ?thesis
      proof (cases "m = l")
        case True
        have "ys ! f = xs ! l" using out [of f] nz [of f] e \<open>f' < l\<close> by simp
        with m True cb e show ?thesis by (intro exI [of _ f]) simp
      next
        case False
        with m l nP e nz [of m] have "Suc f' \<le> m \<and> m < l \<and> P (?zs ! m)"
          by (cases "m = f") auto
        from hint [OF this] obtain m' where "Suc f' \<le> m'" "m' < c" "P (ys ! m')" by blast
        with e show ?thesis by (intro exI [of _ m']) simp
      qed
    qed
    have lo': "f + lst \<le> 2 * c + 1" using lo f'1 l by simp
    have cb': "f \<le> c" "c \<le> lst" using cb f'1 l by simp_all
    have "\<forall>m. m < f \<or> lst \<le> m \<longrightarrow> ys ! m = xs ! m" using out' by blast
    moreover have "\<forall>m. f \<le> m \<and> m < lst \<and> P (xs ! m) \<longrightarrow> (\<exists>m'. f \<le> m' \<and> m' < c \<and> P (ys ! m'))"
      using hint' by blast
    ultimately show ?thesis using res len cb' up' lo' by blast
  qed
qed


lemma move_median_hint:
  assumes amo: "length (filter P xs) \<le> 1"
      and ord: "r < a" "a < b" "b < c" "c < length xs"
  shows "\<not> P (move_median_to_first (\<lambda>a b. P a) r a b c xs ! r)
         \<and> (\<forall>m. m < r \<or> c < m \<longrightarrow> move_median_to_first (\<lambda>a b. P a) r a b c xs ! m = xs ! m)
         \<and> (\<forall>m. r \<le> m \<and> m \<le> c \<and> P (xs ! m) \<longrightarrow>
               (\<exists>m'. r < m' \<and> m' \<le> c \<and> P (move_median_to_first (\<lambda>a b. P a) r a b c xs ! m')))"
proof -
  let ?ys = "move_median_to_first (\<lambda>a b. P a) r a b c xs"
  have len: "r < length xs" "a < length xs" "b < length xs" using ord by auto
  have u: "\<And>i j. i < length xs \<Longrightarrow> j < length xs \<Longrightarrow> P (xs ! i) \<Longrightarrow> P (xs ! j) \<Longrightarrow> i = j"
    using amo_unique [OF amo] by blast
  have "\<exists>t. r < t \<and> t \<le> c \<and> \<not> P (xs ! t) \<and> ?ys = iter_swap r t xs"
  proof (cases "P (xs ! a)")
    case True
    with u [of a b] u [of a c] len ord have "\<not> P (xs ! b)" "\<not> P (xs ! c)" by auto
    with True have "?ys = iter_swap r c xs" by (simp add: move_median_to_first_def)
    with \<open>\<not> P (xs ! c)\<close> ord show ?thesis by (intro exI [of _ c]) simp
  next
    case nPa: False
    show ?thesis
    proof (cases "P (xs ! b)")
      case True
      with u [of b c] len ord have "\<not> P (xs ! c)" by auto
      moreover from nPa True have "?ys = iter_swap r c xs" by (simp add: move_median_to_first_def)
      ultimately show ?thesis using ord by (intro exI [of _ c]) simp
    next
      case False
      with nPa have "?ys = iter_swap r b xs" by (simp add: move_median_to_first_def)
      with False ord show ?thesis by (intro exI [of _ b]) simp
    qed
  qed
  then obtain t where t: "r < t" "t \<le> c" "\<not> P (xs ! t)" and ys: "?ys = iter_swap r t xs" by blast
  from t ord have tl: "t < length xs" by simp
  have nz: "\<And>m. ?ys ! m = (if m = t then xs ! r else if m = r then xs ! t else xs ! m)"
    unfolding ys using nth_iter_swap [OF len(1) tl] by simp
  have 1: "\<not> P (?ys ! r)" using t by (simp add: nz)
  have 2: "\<forall>m. m < r \<or> c < m \<longrightarrow> ?ys ! m = xs ! m" using t by (auto simp: nz)
  have 3: "\<exists>m'. r < m' \<and> m' \<le> c \<and> P (?ys ! m')" if m: "r \<le> m" "m \<le> c" "P (xs ! m)" for m
  proof (cases "m = r")
    case True
    with m t show ?thesis by (intro exI [of _ t]) (simp add: nz)
  next
    case False
    with m t have "r < m \<and> m \<le> c \<and> P (?ys ! m)" by (auto simp: nz)
    then show ?thesis by blast
  qed
  from 1 2 3 show ?thesis by blast
qed

lemma unguarded_partition_pivot_hint:
  assumes amo: "length (filter P xs) \<le> 1" and ll: "lst \<le> length xs" and sz: "lst - first > 16"
  shows "\<exists>c ys. unguarded_partition_pivot (\<lambda>a b. P a) xs first lst = Some (c, ys)
           \<and> length ys = length xs \<and> mset ys = mset xs
           \<and> (\<forall>m. m < first \<or> lst \<le> m \<longrightarrow> ys ! m = xs ! m)
           \<and> first < c \<and> c \<le> lst \<and> 2 * c \<le> first + lst + 3 \<and> first + lst \<le> 2 * c
           \<and> (\<forall>m. first \<le> m \<and> m < lst \<and> P (xs ! m) \<longrightarrow> (\<exists>m'. first \<le> m' \<and> m' < c \<and> P (ys ! m')))"
proof -
  let ?mid = "first + (lst - first) div 2"
  let ?xs1 = "move_median_to_first (\<lambda>a b. P a) first (Suc first) ?mid (lst - 1) xs"
  have ord: "first < Suc first" "Suc first < ?mid" "?mid < lst - 1" "lst - 1 < length xs"
    using ll sz by auto
  from move_median_hint [OF amo ord]
  have m1: "\<not> P (?xs1 ! first)"
    and m2: "\<And>m. m < first \<or> lst - 1 < m \<Longrightarrow> ?xs1 ! m = xs ! m"
    and m3: "\<And>m. first \<le> m \<and> m \<le> lst - 1 \<and> P (xs ! m) \<Longrightarrow> \<exists>m'. first < m' \<and> m' \<le> lst - 1 \<and> P (?xs1 ! m')"
    by blast+
  have ms: "mset ?xs1 = mset xs" using ord by (intro mset_move_median) auto
  have amo1: "length (filter P ?xs1) \<le> 1" using amo amo_mset [OF ms, of P] by simp
  have J: "(lst < length ?xs1 \<and> \<not> P (?xs1 ! lst)) \<or> Suc (Suc first) < lst" using sz by auto
  have le1: "Suc first \<le> lst" and ll1: "lst \<le> length ?xs1" using ll sz by auto
  from unguarded_partition_hint [OF amo1 m1 lessI le1 ll1 J]
  obtain c ys where r: "unguarded_partition (\<lambda>a b. P a) first ?xs1 (Suc first) lst = Some (c, ys)"
      and len1: "length ys = length ?xs1"
      and out1: "\<forall>m. m < Suc first \<or> lst \<le> m \<longrightarrow> ys ! m = ?xs1 ! m"
      and cb: "Suc first \<le> c" "c \<le> lst"
      and up: "2 * c \<le> Suc first + lst + (if \<exists>m. Suc first \<le> m \<and> m < lst \<and> P (?xs1 ! m) then 2 else 0)"
      and lo: "Suc first + lst \<le> 2 * c + 1"
      and hint1: "\<forall>m. Suc first \<le> m \<and> m < lst \<and> P (?xs1 ! m) \<longrightarrow> (\<exists>m'. Suc first \<le> m' \<and> m' < c \<and> P (ys ! m'))"
    by blast
  note out = out1 [rule_format] and hint = hint1 [rule_format]
  from len1 have len: "length ys = length xs" by simp
  have res: "unguarded_partition_pivot (\<lambda>a b. P a) xs first lst = Some (c, ys)"
    using r by (simp add: unguarded_partition_pivot_def Let_def)
  from unguarded_partition_pivot_perm [OF res ll sz] have mset: "mset ys = mset xs" by simp
  have out': "\<forall>m. m < first \<or> lst \<le> m \<longrightarrow> ys ! m = xs ! m"
  proof (intro allI impI)
    fix m assume a: "m < first \<or> lst \<le> m"
    then have "ys ! m = ?xs1 ! m" by (intro out) auto
    also from a sz have "\<dots> = xs ! m" by (intro m2) auto
    finally show "ys ! m = xs ! m" .
  qed
  have up': "2 * c \<le> first + lst + 3"
  proof -
    have "(if \<exists>m. Suc first \<le> m \<and> m < lst \<and> P (?xs1 ! m) then 2 else 0) \<le> (2::nat)"
      by simp
    with up show ?thesis by linarith
  qed
  have hint': "\<forall>m. first \<le> m \<and> m < lst \<and> P (xs ! m) \<longrightarrow> (\<exists>m'. first \<le> m' \<and> m' < c \<and> P (ys ! m'))"
  proof (intro allI impI)
    fix m assume a: "first \<le> m \<and> m < lst \<and> P (xs ! m)"
    then have "first \<le> m \<and> m \<le> lst - 1 \<and> P (xs ! m)" by auto
    from m3 [OF this] obtain m1 where "first < m1" "m1 \<le> lst - 1" "P (?xs1 ! m1)" by blast
    with sz have "Suc first \<le> m1 \<and> m1 < lst \<and> P (?xs1 ! m1)" by auto
    from hint [OF this] obtain m' where "Suc first \<le> m'" "m' < c" "P (ys ! m')" by blast
    then show "\<exists>m'. first \<le> m' \<and> m' < c \<and> P (ys ! m')" by (intro exI [of _ m']) simp
  qed
  from cb lo have "first < c" "first + lst \<le> 2 * c" by simp_all
  with res len mset out' cb up' hint' show ?thesis by blast
qed

lemma introsort_loop_small: "lst - first \<le> 16 \<Longrightarrow> introsort_loop cmp xs first lst d = Some xs"
  by (cases d) simp_all

lemma introsort_loop_hint:
  assumes "length (filter P xs) \<le> 1" and "lst \<le> length xs" and "lst - first \<le> 2 ^ d + 3"
  shows "\<exists>ys. introsort_loop (\<lambda>a b. P a) xs first lst d = Some ys
           \<and> length ys = length xs \<and> mset ys = mset xs
           \<and> (\<forall>m. m < first \<or> lst \<le> m \<longrightarrow> ys ! m = xs ! m)
           \<and> (\<forall>m. first \<le> m \<and> m < lst \<and> P (xs ! m) \<longrightarrow>
                 (\<exists>m'. first \<le> m' \<and> m' < first + 16 \<and> m' < lst \<and> P (ys ! m')))"
  using assms
proof (induction d arbitrary: xs first lst)
  case 0
  then have "introsort_loop (\<lambda>a b. P a) xs first lst 0 = Some xs" by simp
  moreover have "\<exists>m'. first \<le> m' \<and> m' < first + 16 \<and> m' < lst \<and> P (xs ! m')"
    if "first \<le> m \<and> m < lst \<and> P (xs ! m)" for m
    using that 0(3) by (intro exI [of _ m]) auto
  ultimately show ?case by auto
next
  case (Suc d)
  note amo = Suc.prems(1) and ll = Suc.prems(2) and sz = Suc.prems(3)
  show ?case
  proof (cases "lst - first > 16")
    case False
    then have "introsort_loop (\<lambda>a b. P a) xs first lst (Suc d) = Some xs" by simp
    moreover have "\<exists>m'. first \<le> m' \<and> m' < first + 16 \<and> m' < lst \<and> P (xs ! m')"
      if "first \<le> m \<and> m < lst \<and> P (xs ! m)" for m
      using that False by (intro exI [of _ m]) auto
    ultimately show ?thesis by auto
  next
    case True
    from unguarded_partition_pivot_hint [OF amo ll True]
    obtain c xs1 where p: "unguarded_partition_pivot (\<lambda>a b. P a) xs first lst = Some (c, xs1)"
        and len1: "length xs1 = length xs" and ms1: "mset xs1 = mset xs"
        and out1': "\<forall>m. m < first \<or> lst \<le> m \<longrightarrow> xs1 ! m = xs ! m"
        and cb: "first < c" "c \<le> lst" "2 * c \<le> first + lst + 3" "first + lst \<le> 2 * c"
        and hint1': "\<forall>m. first \<le> m \<and> m < lst \<and> P (xs ! m) \<longrightarrow> (\<exists>m'. first \<le> m' \<and> m' < c \<and> P (xs1 ! m'))"
      by blast
    note out1 = out1' [rule_format] and hint1 = hint1' [rule_format]
    have amo1: "length (filter P xs1) \<le> 1" using amo amo_mset [OF ms1, of P] by simp
    have szr: "lst - c \<le> 2 ^ d + 3" using cb sz by simp
    have szl: "c - first \<le> 2 ^ d + 3" using cb sz by simp
    have llr: "lst \<le> length xs1" using ll len1 by simp
    from Suc.IH [OF amo1 llr szr]
    obtain xs2 where r1: "introsort_loop (\<lambda>a b. P a) xs1 c lst d = Some xs2"
        and len2': "length xs2 = length xs1" and ms2: "mset xs2 = mset xs1"
        and out2': "\<forall>m. m < c \<or> lst \<le> m \<longrightarrow> xs2 ! m = xs1 ! m"
      by blast
    note out2 = out2' [rule_format]
    from len2' len1 have len2: "length xs2 = length xs" by simp
    have amo2: "length (filter P xs2) \<le> 1" using amo1 amo_mset [OF ms2, of P] by simp
    have lll: "c \<le> length xs2" using cb ll len2 by simp
    from Suc.IH [OF amo2 lll szl]
    obtain ys where r2: "introsort_loop (\<lambda>a b. P a) xs2 first c d = Some ys"
        and len3': "length ys = length xs2" and ms3: "mset ys = mset xs2"
        and out3': "\<forall>m. m < first \<or> c \<le> m \<longrightarrow> ys ! m = xs2 ! m"
        and hint3': "\<forall>m. first \<le> m \<and> m < c \<and> P (xs2 ! m) \<longrightarrow>
                      (\<exists>m'. first \<le> m' \<and> m' < first + 16 \<and> m' < c \<and> P (ys ! m'))"
      by blast
    note out3 = out3' [rule_format] and hint3 = hint3' [rule_format]
    from len3' len2 have len3: "length ys = length xs" by simp
    have res: "introsort_loop (\<lambda>a b. P a) xs first lst (Suc d) = Some ys"
      using True p r1 r2 by simp
    have out: "\<forall>m. m < first \<or> lst \<le> m \<longrightarrow> ys ! m = xs ! m"
    proof (intro allI impI)
      fix m assume a: "m < first \<or> lst \<le> m"
      with cb have "ys ! m = xs2 ! m" by (intro out3) auto
      also from a cb have "\<dots> = xs1 ! m" by (intro out2) auto
      also from a have "\<dots> = xs ! m" by (intro out1)
      finally show "ys ! m = xs ! m" .
    qed
    have hint: "\<forall>m. first \<le> m \<and> m < lst \<and> P (xs ! m) \<longrightarrow>
                 (\<exists>m'. first \<le> m' \<and> m' < first + 16 \<and> m' < lst \<and> P (ys ! m'))"
    proof (intro allI impI)
      fix m assume "first \<le> m \<and> m < lst \<and> P (xs ! m)"
      from hint1 [OF this] obtain m1 where m1: "first \<le> m1" "m1 < c" "P (xs1 ! m1)" by blast
      then have "xs2 ! m1 = xs1 ! m1" by (intro out2) simp
      with m1 have "first \<le> m1 \<and> m1 < c \<and> P (xs2 ! m1)" by simp
      from hint3 [OF this] obtain m' where "first \<le> m'" "m' < first + 16" "m' < c" "P (ys ! m')"
        by blast
      with cb show "\<exists>m'. first \<le> m' \<and> m' < first + 16 \<and> m' < lst \<and> P (ys ! m')"
        by (intro exI [of _ m']) simp
    qed
    from res len3 ms3 ms2 ms1 out hint show ?thesis by auto
  qed
qed

lemma lg_bound: "0 < n \<Longrightarrow> n < 2 * 2 ^ lg n"
proof (induction n rule: lg.induct)
  case (1 n)
  show ?case
  proof (cases "n < 2")
    case True
    then show ?thesis by (subst lg.simps) simp
  next
    case False
    with "1.IH" have "n div 2 < 2 * 2 ^ lg (n div 2)" by simp
    then have "n < 2 * (2 * 2 ^ lg (n div 2))" by linarith
    with False show ?thesis by (subst lg.simps) simp
  qed
qed

lemma lg_depth: "0 < n \<Longrightarrow> n \<le> 2 ^ (2 * lg n) + 3"
proof (cases "lg n")
  case 0
  assume "0 < n"
  from lg_bound [OF this] 0 show ?thesis by simp
next
  case (Suc k)
  assume "0 < n"
  from lg_bound [OF this] have "n < 2 ^ Suc (lg n)" by simp
  also have "\<dots> \<le> 2 ^ (2 * lg n)" using Suc by (intro power_increasing) simp_all
  finally show ?thesis by simp
qed

lemma insertion_step_hint:
  "prefix \<noteq> [] \<Longrightarrow>
     insertion_step (\<lambda>a b. P a) prefix v = Some (if P v then v # prefix else prefix @ [v])"
  by (cases "rev prefix") (auto simp: insertion_step_def)

lemma unguarded_step_hint:
  "prefix \<noteq> [] \<Longrightarrow> \<not> P v \<Longrightarrow> unguarded_step (\<lambda>a b. P a) prefix v = Some (prefix @ [v])"
  by (cases "rev prefix") (auto simp: unguarded_step_def)

lemma insertion_loop_hint:
  "prefix \<noteq> [] \<Longrightarrow>
     insertion_loop (insertion_step (\<lambda>a b. P a)) prefix xs
     = Some (rev (filter P xs) @ prefix @ filter (\<lambda>v. \<not> P v) xs)"
  by (induction xs arbitrary: prefix) (simp_all add: insertion_step_hint)

lemma unguarded_loop_hint:
  "prefix \<noteq> [] \<Longrightarrow> \<forall>x \<in> set xs. \<not> P x \<Longrightarrow>
     insertion_loop (unguarded_step (\<lambda>a b. P a)) prefix xs = Some (prefix @ xs)"
  by (induction xs arbitrary: prefix) (simp_all add: unguarded_step_hint)

lemma insertion_sort_hint:
  assumes "filter P xs = [X]"
  shows "insertion_sort (\<lambda>a b. P a) xs = Some (X # filter (\<lambda>v. \<not> P v) xs)"
proof (cases xs)
  case Nil
  with assms show ?thesis by simp
next
  case (Cons x rest)
  with assms show ?thesis
    by (cases "P x") (simp_all add: insertion_sort_def insertion_loop_hint)
qed

lemma final_insertion_sort_hint:
  assumes f: "filter P zs = [X]"
      and pos: "length zs > 16 \<Longrightarrow> \<exists>m < 16. P (zs ! m)"
  shows "final_insertion_sort (\<lambda>a b. P a) zs = Some (X # filter (\<lambda>v. \<not> P v) zs)"
proof (cases "length zs > 16")
  case False
  with insertion_sort_hint [OF f] show ?thesis by (simp add: final_insertion_sort_def)
next
  case True
  from pos [OF True] obtain m where m: "m < 16" "P (zs ! m)" by blast
  with True have "zs ! m \<in> set (take 16 zs)" by (auto simp: in_set_conv_nth intro!: exI [of _ m])
  with m have ne: "filter P (take 16 zs) \<noteq> []" by (auto simp: filter_empty_conv)
  have "filter P (take 16 zs) @ filter P (drop 16 zs) = [X]"
    using f by (metis append_take_drop_id filter_append)
  with ne have a: "filter P (take 16 zs) = [X]" and b: "filter P (drop 16 zs) = []"
    by (auto simp: append_eq_Cons_conv)
  from b have nb: "\<forall>x \<in> set (drop 16 zs). \<not> P x" by (simp add: filter_empty_conv)
  then have fb: "filter (\<lambda>v. \<not> P v) (drop 16 zs) = drop 16 zs" by simp
  have "filter (\<lambda>v. \<not> P v) zs = filter (\<lambda>v. \<not> P v) (take 16 zs) @ drop 16 zs"
    using fb by (metis append_take_drop_id filter_append)
  with True insertion_sort_hint [OF a] unguarded_loop_hint [OF _ nb, of "X # filter (\<lambda>v. \<not> P v) (take 16 zs)"]
  show ?thesis by (simp add: final_insertion_sort_def)
qed

lemma std_sort_run_hint:
  assumes f: "filter P xs = [X]"
  shows "\<exists>rest. std_sort_run (\<lambda>a b. P a) xs = Some (X # rest)
           \<and> mset rest = mset (filter (\<lambda>v. \<not> P v) xs)
           \<and> (length xs \<le> 16 \<longrightarrow> rest = filter (\<lambda>v. \<not> P v) xs)"
proof -
  from f have ne: "xs \<noteq> []" by auto
  then have n: "0 < length xs" by simp
  from f have amo: "length (filter P xs) \<le> 1" by simp
  from f have "X \<in> set (filter P xs)" by simp
  then have "X \<in> set xs" "P X" by auto
  then obtain k where k: "k < length xs" "P (xs ! k)" by (auto simp: in_set_conv_nth)
  have "length xs - 0 \<le> 2 ^ (2 * lg (length xs)) + 3" using lg_depth [OF n] by simp
  from introsort_loop_hint [OF amo le_refl this]
  obtain zs where r: "introsort_loop (\<lambda>a b. P a) xs 0 (length xs) (2 * lg (length xs)) = Some zs"
      and len: "length zs = length xs" and ms: "mset zs = mset xs"
      and hint': "\<forall>m. 0 \<le> m \<and> m < length xs \<and> P (xs ! m) \<longrightarrow>
                    (\<exists>m'. 0 \<le> m' \<and> m' < 0 + 16 \<and> m' < length xs \<and> P (zs ! m'))"
    by blast
  note hint = hint' [rule_format]
  from hint [of k] k have pos: "\<exists>m < 16. P (zs ! m)" by auto
  have "mset (filter P zs) = mset (filter P xs)" using ms by (simp only: mset_filter)
  with f have "mset (filter P zs) = {#X#}" by (simp only: mset.simps)
  then have fz: "filter P zs = [X]" by (simp only: mset_single_iff)
  have rest: "mset (filter (\<lambda>v. \<not> P v) zs) = mset (filter (\<lambda>v. \<not> P v) xs)"
    using ms by (simp only: mset_filter)
  from final_insertion_sort_hint [OF fz pos]
  have "std_sort_run (\<lambda>a b. P a) xs = Some (X # filter (\<lambda>v. \<not> P v) zs)"
    using ne r by (simp add: std_sort_run_def)
  moreover have "filter (\<lambda>v. \<not> P v) zs = filter (\<lambda>v. \<not> P v) xs" if "length xs \<le> 16"
    using introsort_loop_small [of "length xs" 0 "\<lambda>a b. P a" xs "2 * lg (length xs)"] r that by simp
  ultimately show ?thesis using rest by blast
qed

lemma filter_key_absent:
  "f X \<notin> f ` set xs \<Longrightarrow> filter (\<lambda>v. f X = f v) xs = [] \<and> filter (\<lambda>v. f X \<noteq> f v) xs = xs"
  by (induction xs) auto

lemma filter_key_present:
  "distinct (map f xs) \<Longrightarrow> X \<in> set xs \<Longrightarrow>
     filter (\<lambda>v. f X = f v) xs = [X] \<and> filter (\<lambda>v. f X \<noteq> f v) xs = remove1 X xs"
proof (induction xs)
  case Nil
  then show ?case by simp
next
  case (Cons x xs)
  show ?case
  proof (cases "x = X")
    case True
    with Cons.prems have "f X \<notin> f ` set xs" by auto
    with True show ?thesis using filter_key_absent [of f X xs] by simp
  next
    case False
    with Cons.prems have "X \<in> set xs" "f X \<noteq> f x" by (auto simp: image_iff)
    with Cons False show ?thesis by auto
  qed
qed

lemma std_sort_hint_first:
  assumes "distinct (map f xs)" and "X \<in> set xs"
  shows "\<exists>rest. std_sort_run (\<lambda>c1 c2. f X = f c1) xs = Some (X # rest)
           \<and> mset rest = mset (remove1 X xs)
           \<and> (length xs \<le> 16 \<longrightarrow> rest = remove1 X xs)"
  using std_sort_run_hint [of "\<lambda>v. f X = f v" xs X] filter_key_present [OF assms] by simp

text \<open>
  The order that libstdc++ gives a pool of 17 CRTCs (ids 30 to 46, in kernel order) for a
  connector whose hint names CRTC 41: the range is partitioned once before the insertion
  sort runs, so the CRTCs behind the hinted one do not keep their order.
\<close>

lemma std_sort_seventeen:
  "map crtc_id
     (std_sort (\<lambda>c1 c2. (41::nat) = crtc_id c1)
        (map (\<lambda>i. \<lparr>crtc_id = i, crtc_pipeIndex = i - 30, crtc_primaryPlane = None\<rparr>) [30..<47]))
   = [41, 38, 46, 45, 44, 43, 42, 40, 39, 30, 37, 36, 35, 34, 33, 32, 31]"
  by code_simp

text \<open>
  C3 (amended). In atomic mode, for a connector with at least one encoder whose CrtcId
  hint names a CRTC X of the pool (CRTC ids in the pool being pairwise different): the
  sort stays inside the array and leaves X in front of the other CRTCs of the pool (in
  their previous order when the pool has at most 16 entries); the first branch explored
  binds the connector to X. When that branch returns a non-empty result, it is the
  result of the search and it contains the pipeline binding the connector to X. When it
  returns the empty result, that pipeline is deleted and the search goes on with the
  other CRTCs in the order of the pool, then with the further encoders.
\<close>

theorem C3_hint_tried_first:
  assumes atomic: "m_atomicModeSetting s"
      and mem: "X \<in> set crtcs"
      and hint: "conn_CrtcId (connectorObj s c) = crtc_id X"
      and ids: "distinct (map crtc_id crtcs)"
      and enc: "conn_encoders (connectorObj s c) = e # es"
      and srt: "std_sort (\<lambda>c1 c2. conn_CrtcId (connectorObj s c) = crtc_id c1) crtcs = pool"
      and n: "newDrmPipeline c X s = (p, s1)"
      and r: "findWorkingCombination t (ps @ [p]) cs (tl pool) s1 = (ret, s2)"
    shows "std_sort_run (\<lambda>c1 c2. conn_CrtcId (connectorObj s c) = crtc_id c1) crtcs = Some pool
           \<and> pool = X # tl pool
           \<and> mset (tl pool) = mset (remove1 X crtcs)
           \<and> (length crtcs \<le> 16 \<longrightarrow> tl pool = remove1 X crtcs)
           \<and> (ret \<noteq> [] \<longrightarrow>
                findWorkingCombination t ps (c # cs) crtcs s = (ret, s2)
                \<and> p \<in> set ret \<and> pl_connector (pipelineObj s2 p) = c \<and> pl_crtc (pipelineObj s2 p) = X)
           \<and> (ret = [] \<longrightarrow>
                findWorkingCombination t ps (c # cs) crtcs s
                = (case forCrtcs t ps c cs pool (tl pool) (deletePipeline (Some p) s2) of
                     (w, s3) \<Rightarrow> if w \<noteq> [] then (w, s3) else forEncoders t ps c cs pool es s3))"
proof -
  from std_sort_hint_first [OF ids mem] hint obtain rest where
      run: "std_sort_run (\<lambda>c1 c2. conn_CrtcId (connectorObj s c) = crtc_id c1) crtcs = Some (X # rest)"
      and ms: "mset rest = mset (remove1 X crtcs)"
      and small: "length crtcs \<le> 16 \<longrightarrow> rest = remove1 X crtcs"
    by auto
  from run srt have pool: "pool = X # rest"
    by (simp add: std_sort_def)
  have crtcs_ne: "crtcs \<noteq> []" using mem by auto
  have start: "findWorkingCombination t ps (c # cs) crtcs s = forEncoders t ps c cs pool (e # es) s"
    using findWorkingCombination_step [of "c # cs" crtcs t ps s] atomic crtcs_ne srt enc by simp
  have rm: "remove1 X pool = rest" using pool by simp
  have branch: "forCrtcs t ps c cs pool pool s
                = (if ret \<noteq> [] then (ret, s2)
                   else forCrtcs t ps c cs pool rest (deletePipeline (Some p) s2))"
    using n r rm pool by (subst pool, subst forCrtcs.simps) simp
  have hit: "findWorkingCombination t ps (c # cs) crtcs s = (ret, s2) \<and> p \<in> set ret
        \<and> pl_connector (pipelineObj s2 p) = c \<and> pl_crtc (pipelineObj s2 p) = X" if ne: "ret \<noteq> []"
  proof -
    have 1: "findWorkingCombination t ps (c # cs) crtcs s = (ret, s2)"
      using start branch ne by simp
    have fr: "search_frame s1 s2"
      using search_frame_search(1) [of s1 t "ps @ [p]" cs "tl pool"] r by simp
    have "search_extends (ps @ [p]) cs (tl pool) s1 (ret, s2)"
      using search_extends_search(1) [of "ps @ [p]" cs "tl pool" s1 t] r by simp
    with ne have 2: "p \<in> set ret" by (auto simp: search_extends_def)
    from n have "p < nextPipeline s1" "pl_connector (pipelineObj s1 p) = c" "pl_crtc (pipelineObj s1 p) = X"
      by (auto simp: newDrmPipeline_def)
    with fr have 3: "pl_connector (pipelineObj s2 p) = c" "pl_crtc (pipelineObj s2 p) = X"
      by (auto simp: search_frame_def)
    from 1 2 3 show ?thesis by simp
  qed
  have miss: "findWorkingCombination t ps (c # cs) crtcs s
                = (case forCrtcs t ps c cs pool (tl pool) (deletePipeline (Some p) s2) of
                     (w, s3) \<Rightarrow> if w \<noteq> [] then (w, s3) else forEncoders t ps c cs pool es s3)"
    if "ret = []"
    using start branch that unfolding pool by simp
  have shape: "std_sort_run (\<lambda>c1 c2. conn_CrtcId (connectorObj s c) = crtc_id c1) crtcs = Some pool
               \<and> pool = X # tl pool \<and> mset (tl pool) = mset (remove1 X crtcs)
               \<and> (length crtcs \<le> 16 \<longrightarrow> tl pool = remove1 X crtcs)"
    using run ms small unfolding pool by simp
  from shape hit miss show ?thesis by blast
qed

theorem C3_hint_tried_first_witness:
  "std_sort_run (\<lambda>c1 c2. conn_CrtcId (connectorObj twoHeadGpu 10) = crtc_id c1) [crtc40, crtc41]
     = Some [crtc41, crtc40]
   \<and> fst (findWorkingCombination (\<lambda>s ps. True) [] [10, 11] [crtc40, crtc41] twoHeadGpu) = [1, 2]
   \<and> pl_connector (pipelineObj
         (snd (findWorkingCombination (\<lambda>s ps. True) [] [10, 11] [crtc40, crtc41] twoHeadGpu)) 1) = 10
   \<and> pl_crtc (pipelineObj
         (snd (findWorkingCombination (\<lambda>s ps. True) [] [10, 11] [crtc40, crtc41] twoHeadGpu)) 1) = crtc41"
proof -
  let ?s1 = "snd (newDrmPipeline 10 crtc41 twoHeadGpu)"
  let ?R = "findWorkingCombination (\<lambda>s ps. True) ([] @ [1]) [11] (tl [crtc41, crtc40]) ?s1"
  have atomic: "m_atomicModeSetting twoHeadGpu"
    by (simp add: twoHeadGpu_def)
  have mem: "crtc41 \<in> set [crtc40, crtc41]"
    by simp
  have hint: "conn_CrtcId (connectorObj twoHeadGpu 10) = crtc_id crtc41"
    by (simp add: twoHeadGpu_def crtc41_def)
  have ids: "distinct (map crtc_id [crtc40, crtc41])"
    by (simp add: crtc40_def crtc41_def)
  have enc: "conn_encoders (connectorObj twoHeadGpu 10) = [1]"
    by (simp add: twoHeadGpu_def)
  have srt: "std_sort (\<lambda>c1 c2. conn_CrtcId (connectorObj twoHeadGpu 10) = crtc_id c1) [crtc40, crtc41]
               = [crtc41, crtc40]"
    by code_simp
  have n: "newDrmPipeline 10 crtc41 twoHeadGpu = (1, ?s1)"
    by (simp add: newDrmPipeline_def twoHeadGpu_def DrmGpu_ctor_def)
  have r: "?R = (fst ?R, snd ?R)"
    by simp
  have e: "fst ?R = [1, 2]"
    by code_simp
  have ne: "fst ?R \<noteq> []"
    using e by simp
  note c3 = C3_hint_tried_first [OF atomic mem hint ids enc srt n r]
  from c3 have run: "std_sort_run (\<lambda>c1 c2. conn_CrtcId (connectorObj twoHeadGpu 10) = crtc_id c1)
                       [crtc40, crtc41] = Some [crtc41, crtc40]"
    by (rule conjunct1)
  from c3 have "fst ?R \<noteq> [] \<longrightarrow>
        findWorkingCombination (\<lambda>s ps. True) [] (10 # [11]) [crtc40, crtc41] twoHeadGpu = (fst ?R, snd ?R)
        \<and> 1 \<in> set (fst ?R) \<and> pl_connector (pipelineObj (snd ?R) 1) = 10
        \<and> pl_crtc (pipelineObj (snd ?R) 1) = crtc41"
    by (elim conjE)
  with ne have hit: "findWorkingCombination (\<lambda>s ps. True) [] [10, 11] [crtc40, crtc41] twoHeadGpu
                     = (fst ?R, snd ?R)"
      and conn: "pl_connector (pipelineObj (snd ?R) 1) = 10"
      and crtc: "pl_crtc (pipelineObj (snd ?R) 1) = crtc41"
    by blast+
  from hit have f: "fst (findWorkingCombination (\<lambda>s ps. True) [] [10, 11] [crtc40, crtc41] twoHeadGpu) = fst ?R"
      and s: "snd (findWorkingCombination (\<lambda>s ps. True) [] [10, 11] [crtc40, crtc41] twoHeadGpu) = snd ?R"
    by simp_all
  show ?thesis
    unfolding f s using run e conn crtc by blast
qed

text \<open>
  C3 as stated fails when the driver rejects every configuration that drives the
  connector from the hinted CRTC: the search backtracks and binds connector 10, whose
  hint names the free CRTC 41, to CRTC 40.
\<close>

theorem C3_counterexample:
  "m_atomicModeSetting twoHeadGpu
   \<and> conn_CrtcId (connectorObj twoHeadGpu 10) = crtc_id crtc41
   \<and> crtc41 \<in> set [crtc40, crtc41]
   \<and> map (\<lambda>p. (pl_connector (pipelineObj
              (snd (findWorkingCombination only40 [] [10] [crtc40, crtc41] twoHeadGpu)) p),
                  pl_crtc (pipelineObj
              (snd (findWorkingCombination only40 [] [10] [crtc40, crtc41] twoHeadGpu)) p)))
         (fst (findWorkingCombination only40 [] [10] [crtc40, crtc41] twoHeadGpu))
       = [(10, crtc40)]"
proof -
  have "m_atomicModeSetting twoHeadGpu"
    by (simp add: twoHeadGpu_def)
  moreover have "conn_CrtcId (connectorObj twoHeadGpu 10) = crtc_id crtc41"
    by (simp add: twoHeadGpu_def crtc41_def)
  moreover have "map (\<lambda>p. (pl_connector (pipelineObj
              (snd (findWorkingCombination only40 [] [10] [crtc40, crtc41] twoHeadGpu)) p),
                  pl_crtc (pipelineObj
              (snd (findWorkingCombination only40 [] [10] [crtc40, crtc41] twoHeadGpu)) p)))
         (fst (findWorkingCombination only40 [] [10] [crtc40, crtc41] twoHeadGpu))
       = [(10, crtc40)]"
    by code_simp
  ultimately show ?thesis by simp
qed

section \<open>Test commits and discarded hypotheses\<close>

lemma setup_keeps:
  "testCommits (commitCombination_setup ps s) = testCommits s
   \<and> livePipelines (commitCombination_setup ps s) = livePipelines s
   \<and> nextPipeline (commitCombination_setup ps s) = nextPipeline s"
proof (induction ps arbitrary: s)
  case Nil
  show ?case by simp
next
  case (Cons p ps)
  show ?case
    by (auto simp: Cons.IH setOutput_def setPipeline_def newDrmOutput_def emit_def
             split: option.splits prod.splits)
qed

lemma undo_keeps:
  "testCommits (commitCombination_undo ps s) = testCommits s
   \<and> livePipelines (commitCombination_undo ps s) = livePipelines s
   \<and> nextPipeline (commitCombination_undo ps s) = nextPipeline s"
proof (induction ps arbitrary: s)
  case Nil
  show ?case by simp
next
  case (Cons p ps)
  show ?case
    by (auto simp: Cons.IH Let_def deleteOutput_def emit_def split: option.splits)
qed

lemma commitCombination_keeps:
  "testCommits (snd (commitCombination t ps s)) = testCommits s @ [(ps, fst (commitCombination t ps s))]
   \<and> livePipelines (snd (commitCombination t ps s)) = livePipelines s
   \<and> nextPipeline (snd (commitCombination t ps s)) = nextPipeline s"
  by (simp add: commitCombination_def Let_def setup_keeps undo_keeps)

lemma search_commits_fail_then:
  assumes a: "search_commits s ([], s1)" and k: "testCommits s1' = testCommits s1"
      and b: "search_commits s1' r"
    shows "search_commits s r"
proof -
  from a obtain l1 where l1: "testCommits s1 = testCommits s @ l1" "\<forall>e \<in> set l1. \<not> snd e"
    by (auto simp: search_commits_def)
  from b obtain l2 where l2: "testCommits (snd r) = testCommits s1' @ l2"
      "\<forall>e \<in> set (butlast l2). \<not> snd e"
      "if fst r = [] then \<forall>e \<in> set l2. \<not> snd e else l2 \<noteq> [] \<and> last l2 = (fst r, True)"
    by (auto simp: search_commits_def)
  have 1: "testCommits (snd r) = testCommits s @ (l1 @ l2)" using l1 l2 k by simp
  have 2: "\<forall>e \<in> set (butlast (l1 @ l2)). \<not> snd e"
    using l1 l2 by (cases "l2 = []") (auto simp: butlast_append dest: in_set_butlastD)
  have 3: "if fst r = [] then \<forall>e \<in> set (l1 @ l2). \<not> snd e
           else l1 @ l2 \<noteq> [] \<and> last (l1 @ l2) = (fst r, True)"
    using l1 l2 by (auto split: if_splits)
  show ?thesis unfolding search_commits_def using 1 2 3 by blast
qed

lemma search_commits_search:
  "search_commits s (findWorkingCombination t ps cs crtcs s)"
  "search_commits s (forEncoders t ps c cs' crtcs' encs s)"
  "search_commits s (forCrtcs t ps c cs' crtcs' rest s)"
proof (induction t ps cs crtcs s and t ps c cs' crtcs' encs s and t ps c cs' crtcs' rest s
       rule: findWorkingCombination_forEncoders_forCrtcs.induct)
  case (1 t ps cs crtcs s)
  show ?case
  proof (cases "cs = [] \<or> crtcs = []")
    case True
    show ?thesis
    proof (cases "ps = []")
      case True
      with \<open>cs = [] \<or> crtcs = []\<close> show ?thesis
        by (simp add: findWorkingCombination_base search_commits_def)
    next
      case False
      obtain ok s' where c: "commitCombination t ps s = (ok, s')" by force
      with commitCombination_keeps [of t ps s]
      have "testCommits s' = testCommits s @ [(ps, ok)]" by simp
      with False c \<open>cs = [] \<or> crtcs = []\<close> show ?thesis
        by (simp add: findWorkingCombination_base search_commits_def)
    qed
  next
    case False
    then show ?thesis
      using 1 by (simp add: findWorkingCombination.simps [of t ps cs crtcs s] Let_def)
  qed
next
  case (2 t ps c cs crtcs s)
  show ?case by (simp add: search_commits_def)
next
  case (3 t ps c cs crtcs e encs s)
  obtain r s1 where r: "forCrtcs t ps c cs crtcs crtcs s = (r, s1)" by force
  show ?case
  proof (cases "r = []")
    case True
    from 3(2) [of r s1] r True have "search_commits s1 (forEncoders t ps c cs crtcs encs s1)" by simp
    moreover from 3(1) r True have "search_commits s ([], s1)" by simp
    ultimately have "search_commits s (forEncoders t ps c cs crtcs encs s1)"
      using search_commits_fail_then [of s s1 s1] by blast
    with r True show ?thesis by simp
  next
    case False
    with 3(1) r show ?thesis by simp
  qed
next
  case (4 t ps c cs crtcs s)
  show ?case by (simp add: search_commits_def)
next
  case (5 t ps c cs crtcs crtc rest s)
  obtain p s1 where n: "newDrmPipeline c crtc s = (p, s1)" by force
  obtain r s2 where r: "findWorkingCombination t (ps @ [p]) cs (remove1 crtc crtcs) s1 = (r, s2)" by force
  have k1: "testCommits s1 = testCommits s" using n by (auto simp: newDrmPipeline_def)
  have "search_commits s1 (r, s2)" using 5(1) [of p s1] n r by simp
  then have c1: "search_commits s (r, s2)" using k1 by (simp add: search_commits_def)
  show ?case
  proof (cases "r = []")
    case True
    have "search_commits (deletePipeline (Some p) s2)
            (forCrtcs t ps c cs crtcs rest (deletePipeline (Some p) s2))"
      using 5(2) [of p s1 r s2] n r True by simp
    moreover have "testCommits (deletePipeline (Some p) s2) = testCommits s2"
      by (simp add: deletePipeline_def)
    moreover have "search_commits s ([], s2)" using c1 True by simp
    ultimately have "search_commits s (forCrtcs t ps c cs crtcs rest (deletePipeline (Some p) s2))"
      using search_commits_fail_then by blast
    with n r True show ?thesis by simp
  next
    case False
    with c1 n r show ?thesis by simp
  qed
qed

lemma search_live_search:
  "alloc_ok s \<longrightarrow> search_live ps s (findWorkingCombination t ps cs crtcs s)"
  "alloc_ok s \<longrightarrow> search_live ps s (forEncoders t ps c cs' crtcs' encs s)"
  "alloc_ok s \<longrightarrow> search_live ps s (forCrtcs t ps c cs' crtcs' rest s)"
proof (induction t ps cs crtcs s and t ps c cs' crtcs' encs s and t ps c cs' crtcs' rest s
       rule: findWorkingCombination_forEncoders_forCrtcs.induct)
  case (1 t ps cs crtcs s)
  show ?case
  proof (cases "cs = [] \<or> crtcs = []")
    case True
    obtain ok s' where c: "commitCombination t ps s = (ok, s')" by force
    with commitCombination_keeps [of t ps s]
    have "livePipelines s' = livePipelines s" "nextPipeline s' = nextPipeline s" by simp_all
    with True c show ?thesis
      by (auto simp: findWorkingCombination_base search_live_def alloc_ok_def)
  next
    case False
    then show ?thesis
      using 1 by (simp add: findWorkingCombination.simps [of t ps cs crtcs s] Let_def)
  qed
next
  case (2 t ps c cs crtcs s)
  show ?case by (simp add: search_live_def)
next
  case (3 t ps c cs crtcs e encs s)
  obtain r s1 where r: "forCrtcs t ps c cs crtcs crtcs s = (r, s1)" by force
  show ?case
  proof
    assume ok: "alloc_ok s"
    with 3(1) r have l1: "search_live ps s (r, s1)" by simp
    show "search_live ps s (forEncoders t ps c cs crtcs (e # encs) s)"
    proof (cases "r = []")
      case True
      with l1 have "alloc_ok s1" "livePipelines s1 = livePipelines s" by (auto simp: search_live_def)
      moreover from 3(2) [of r s1] r True
      have "alloc_ok s1 \<longrightarrow> search_live ps s1 (forEncoders t ps c cs crtcs encs s1)" by simp
      ultimately have "search_live ps s (forEncoders t ps c cs crtcs encs s1)"
        by (simp add: search_live_def)
      with r True show ?thesis by simp
    next
      case False
      with l1 r show ?thesis by simp
    qed
  qed
next
  case (4 t ps c cs crtcs s)
  show ?case by (simp add: search_live_def)
next
  case (5 t ps c cs crtcs crtc rest s)
  obtain p s1 where n: "newDrmPipeline c crtc s = (p, s1)" by force
  obtain r s2 where r: "findWorkingCombination t (ps @ [p]) cs (remove1 crtc crtcs) s1 = (r, s2)" by force
  show ?case
  proof
    assume ok: "alloc_ok s"
    from n have p: "p = nextPipeline s" and l1: "livePipelines s1 = insert p (livePipelines s)"
      and n1: "nextPipeline s1 = Suc p"
      by (auto simp: newDrmPipeline_def)
    from ok p l1 n1 have ok1: "alloc_ok s1" and fresh: "p \<notin> livePipelines s"
      by (auto simp: alloc_ok_def)
    from 5(1) [of p s1] n r ok1 have l2: "search_live (ps @ [p]) s1 (r, s2)" by simp
    show "search_live ps s (forCrtcs t ps c cs crtcs (crtc # rest) s)"
    proof (cases "r = []")
      case True
      let ?s3 = "deletePipeline (Some p) s2"
      from l2 True have "alloc_ok s2" "livePipelines s2 = insert p (livePipelines s)"
        using l1 by (auto simp: search_live_def)
      then have "alloc_ok ?s3" "livePipelines ?s3 = livePipelines s"
        using fresh by (auto simp: deletePipeline_def alloc_ok_def)
      moreover from 5(2) [of p s1 r s2] n r True
      have "alloc_ok ?s3 \<longrightarrow> search_live ps ?s3 (forCrtcs t ps c cs crtcs rest ?s3)" by simp
      ultimately have "search_live ps s (forCrtcs t ps c cs crtcs rest ?s3)"
        by (simp add: search_live_def)
      with n r True show ?thesis by simp
    next
      case False
      have "search_extends (ps @ [p]) cs (remove1 crtc crtcs) s1 (r, s2)"
        using search_extends_search(1) [of "ps @ [p]" cs "remove1 crtc crtcs" s1 t] r by simp
      with False obtain new where rn: "r = (ps @ [p]) @ new" by (auto simp: search_extends_def)
      from l2 False rn l1 have "search_live ps s (r, s2)"
        by (auto simp: search_live_def)
      with n r False show ?thesis by simp
    qed
  qed
qed

text \<open>
  C5. With an empty connector list or an empty CRTC pool the search returns the
  accumulated pipelines if their test commit succeeds and the empty list if it fails,
  making exactly that one test commit when there are accumulated pipelines. In every
  search each test commit but the last is a rejected one, and a non-empty result is the
  pipeline list of the last, accepted test commit: nothing is tried after the first
  success. Among the pipelines allocated by the search exactly those of the result stay
  alive.
\<close>

theorem C5_search_base_and_first_fit:
  assumes r: "findWorkingCombination t pipelines connectors crtcs s = (config, s')"
    shows "(connectors = [] \<or> crtcs = [] \<longrightarrow>
              config = (if fst (commitCombination t pipelines s) then pipelines else [])
              \<and> (pipelines \<noteq> [] \<longrightarrow>
                   s' = snd (commitCombination t pipelines s)
                   \<and> testCommits s' = testCommits s @ [(pipelines, fst (commitCombination t pipelines s))]))
           \<and> (\<exists>log. testCommits s' = testCommits s @ log
                 \<and> (\<forall>e \<in> set (butlast log). \<not> snd e)
                 \<and> (config \<noteq> [] \<longrightarrow> log \<noteq> [] \<and> last log = (config, True))
                 \<and> (config = [] \<longrightarrow> (\<forall>e \<in> set log. \<not> snd e)))
           \<and> ((\<forall>p \<in> livePipelines s. p < nextPipeline s) \<longrightarrow>
                 livePipelines s' =
                   (if config = [] then livePipelines s
                    else livePipelines s \<union> set (drop (length pipelines) config)))"
proof -
  have 1: "config = (if fst (commitCombination t pipelines s) then pipelines else [])
           \<and> (pipelines \<noteq> [] \<longrightarrow>
                s' = snd (commitCombination t pipelines s)
                \<and> testCommits s' = testCommits s @ [(pipelines, fst (commitCombination t pipelines s))])"
    if "connectors = [] \<or> crtcs = []"
    using r that commitCombination_keeps [of t pipelines s]
    by (auto simp: findWorkingCombination_base split: if_splits prod.splits)
  have "search_commits s (config, s')"
    using search_commits_search(1) [of s t pipelines connectors crtcs] r by simp
  then have 2: "\<exists>log. testCommits s' = testCommits s @ log
                 \<and> (\<forall>e \<in> set (butlast log). \<not> snd e)
                 \<and> (config \<noteq> [] \<longrightarrow> log \<noteq> [] \<and> last log = (config, True))
                 \<and> (config = [] \<longrightarrow> (\<forall>e \<in> set log. \<not> snd e))"
    unfolding search_commits_def fst_conv snd_conv by (cases "config = []") auto
  have 3: "livePipelines s' =
             (if config = [] then livePipelines s
              else livePipelines s \<union> set (drop (length pipelines) config))"
    if "\<forall>p \<in> livePipelines s. p < nextPipeline s"
    using search_live_search(1) [of s pipelines t connectors crtcs] r that
    by (simp add: search_live_def alloc_ok_def)
  from 1 2 3 show ?thesis by blast
qed

theorem C5_search_base_and_first_fit_witness:
  "fst (findWorkingCombination inOrderOnly [] [10, 11] [crtc40, crtc41] twoHeadGpu) = [4, 5]
   \<and> testCommits (snd (findWorkingCombination inOrderOnly [] [10, 11] [crtc40, crtc41] twoHeadGpu))
       = [([1, 2], False), ([1, 3], False), ([4, 5], True)]
   \<and> livePipelines (snd (findWorkingCombination inOrderOnly [] [10, 11] [crtc40, crtc41] twoHeadGpu))
       = {4, 5}
   \<and> fst (findWorkingCombination inOrderOnly [1] [] [crtc40]
            (snd (newDrmPipeline 10 crtc41 twoHeadGpu))) = []"
proof -
  let ?R = "findWorkingCombination inOrderOnly [] [10, 11] [crtc40, crtc41] twoHeadGpu"
  let ?s1 = "snd (newDrmPipeline 10 crtc41 twoHeadGpu)"
  let ?B = "findWorkingCombination inOrderOnly [1] [] [crtc40] ?s1"
  have e: "fst ?R = [4, 5]"
    by code_simp
  have l: "testCommits (snd ?R) = [([1, 2], False), ([1, 3], False), ([4, 5], True)]"
    by code_simp
  have r: "?R = ([4, 5], snd ?R)"
    using e by (metis prod.collapse)
  have inv: "\<forall>p \<in> livePipelines twoHeadGpu. p < nextPipeline twoHeadGpu"
    by (simp add: twoHeadGpu_def DrmGpu_ctor_def)
  have live0: "livePipelines twoHeadGpu = {}"
    by (simp add: twoHeadGpu_def DrmGpu_ctor_def)
  have b: "?B = (fst ?B, snd ?B)"
    by simp
  have c: "\<not> fst (commitCombination inOrderOnly [1] ?s1)"
    by code_simp
  have "livePipelines (snd ?R) = {4, 5}"
    using C5_search_base_and_first_fit [OF r] inv live0 by auto
  moreover have "fst ?B = []"
    using C5_search_base_and_first_fit [OF b] c by simp
  ultimately show ?thesis using e l by simp
qed

section \<open>Lease requests\<close>

lemma addLeaseObjects_append: "addLeaseObjects s out objects = objects @ addLeaseObjects s out []"
  by (simp add: addLeaseObjects_def Let_def)

lemma handleLeaseRequest_collect_eq:
  "handleLeaseRequest_collect s conns objects outputs =
     (objects @ concat (map (\<lambda>out. addLeaseObjects s out [])
        (filter (\<lambda>out. out \<in> set (m_leaseOutputs s) \<and> lo_lease (leaseOutputObj s out) = None) conns)),
      outputs @ filter (\<lambda>out. out \<in> set (m_leaseOutputs s) \<and> lo_lease (leaseOutputObj s out) = None) conns)"
proof (induction conns arbitrary: objects outputs)
  case Nil
  show ?case by simp
next
  case (Cons c conns)
  show ?case
    using addLeaseObjects_append [of s c objects] by (simp add: Cons.IH)
qed

lemma handleLeaseRequest_leased_obj:
  "leaseOutputObj (handleLeaseRequest_leased lease outputs s) out =
     (if out \<in> set outputs then (leaseOutputObj s out)\<lparr>lo_lease := Some lease\<rparr>
      else leaseOutputObj s out)"
  by (induction outputs arbitrary: s) (auto simp: leased_def)

lemma handleLeaseRequest_leased_keeps:
  "leaseObj (handleLeaseRequest_leased lease outputs s) = leaseObj s
   \<and> leaseCalls (handleLeaseRequest_leased lease outputs s) = leaseCalls s"
  by (induction outputs arbitrary: s) (auto simp: leased_def)

text \<open>
  C6 (amended). For a pending lease request, with the eligible connectors being the
  requested ones that are lease outputs of the device and hold no lease: the kernel is
  asked once, for the object ids collected from the eligible connectors; if the kernel
  refuses, the request is denied and no lease output, output or pipeline changes; if it
  grants, the request is granted and exactly the eligible lease outputs are marked leased
  by it. In both cases a lease output that already holds a lease is left as it is.
\<close>

theorem C6_handleLeaseRequest:
  assumes pending: "lease_answer (leaseObj s leaseRequest) = Pending"
      and el: "eligible = filter (\<lambda>out. out \<in> set (m_leaseOutputs s) \<and> lo_lease (leaseOutputObj s out) = None)
                            (lease_connectors (leaseObj s leaseRequest))"
      and ob: "objects = concat (map (\<lambda>out. addLeaseObjects s out []) eligible)"
      and s': "s' = handleLeaseRequest drmModeCreateLease leaseRequest s"
    shows "leaseCalls s' = leaseCalls s @ [objects]
           \<and> (drmModeCreateLease objects = None \<longrightarrow>
                lease_answer (leaseObj s' leaseRequest) = Denied
                \<and> leaseOutputObj s' = leaseOutputObj s \<and> outputObj s' = outputObj s
                \<and> pipelineObj s' = pipelineObj s \<and> m_pipelines s' = m_pipelines s
                \<and> m_outputs s' = m_outputs s \<and> m_leaseOutputs s' = m_leaseOutputs s
                \<and> revokedLessees s' = revokedLessees s)
           \<and> (\<forall>fd lesseeId. drmModeCreateLease objects = Some (fd, lesseeId) \<longrightarrow>
                lease_answer (leaseObj s' leaseRequest) = Granted fd lesseeId
                \<and> (\<forall>out. lo_lease (leaseOutputObj s' out) =
                      (if out \<in> set eligible then Some leaseRequest else lo_lease (leaseOutputObj s out))))
           \<and> (\<forall>out lease. lo_lease (leaseOutputObj s out) = Some lease \<longrightarrow>
                leaseOutputObj s' out = leaseOutputObj s out)"
proof -
  have c: "handleLeaseRequest_collect s (lease_connectors (leaseObj s leaseRequest)) [] [] = (objects, eligible)"
    using el ob by (simp add: handleLeaseRequest_collect_eq)
  show ?thesis
  proof (cases "drmModeCreateLease objects")
    case None
    then have "s' = deny leaseRequest (s\<lparr>leaseCalls := leaseCalls s @ [objects]\<rparr>)"
      using s' c by (simp add: handleLeaseRequest_def)
    with pending None show ?thesis by (simp add: deny_def)
  next
    case (Some a)
    obtain fd lesseeId where a: "a = (fd, lesseeId)" by (cases a)
    have "s' = handleLeaseRequest_leased leaseRequest eligible
                 (grant leaseRequest fd lesseeId (s\<lparr>leaseCalls := leaseCalls s @ [objects]\<rparr>))"
      using s' c Some a by (simp add: handleLeaseRequest_def)
    then show ?thesis
      using Some a el by (auto simp: handleLeaseRequest_leased_obj handleLeaseRequest_leased_keeps grant_def)
  qed
qed

theorem C6_handleLeaseRequest_witness:
  "leaseCalls (handleLeaseRequest (\<lambda>objects. None) 8 leaseGpu) = [[21, 41]]
   \<and> lease_answer (leaseObj (handleLeaseRequest (\<lambda>objects. None) 8 leaseGpu) 8) = Denied
   \<and> leaseOutputObj (handleLeaseRequest (\<lambda>objects. None) 8 leaseGpu) = leaseOutputObj leaseGpu
   \<and> lease_answer (leaseObj (handleLeaseRequest (\<lambda>objects. Some (5, 99)) 8 leaseGpu) 8) = Granted 5 99
   \<and> lo_lease (leaseOutputObj (handleLeaseRequest (\<lambda>objects. Some (5, 99)) 8 leaseGpu) 2) = Some 8
   \<and> lo_lease (leaseOutputObj (handleLeaseRequest (\<lambda>objects. Some (5, 99)) 8 leaseGpu) 1) = Some 7"
proof -
  have pending: "lease_answer (leaseObj leaseGpu 8) = Pending"
    by (simp add: leaseGpu_def)
  have el: "[2] = filter (\<lambda>out. out \<in> set (m_leaseOutputs leaseGpu)
                                 \<and> lo_lease (leaseOutputObj leaseGpu out) = None)
                    (lease_connectors (leaseObj leaseGpu 8))"
    by (simp add: leaseGpu_def)
  have ob: "[21, 41] = concat (map (\<lambda>out. addLeaseObjects leaseGpu out []) [2])"
    by (simp add: leaseGpu_def addLeaseObjects_def crtc41_def)
  have l1: "lo_lease (leaseOutputObj leaseGpu 1) = Some 7"
    by (simp add: leaseGpu_def)
  have l0: "leaseCalls leaseGpu = []"
    by (simp add: leaseGpu_def DrmGpu_ctor_def)
  from C6_handleLeaseRequest [OF pending el ob refl, of "\<lambda>objects. None"]
       C6_handleLeaseRequest [OF pending el ob refl, of "\<lambda>objects. Some (5, 99)"] l1 l0
  show ?thesis by simp
qed

text \<open>
  C6 as stated fails for a request that names an already leased output next to a
  free one: the request is granted for the free output's objects, not denied.
\<close>

theorem C6_counterexample:
  "lo_lease (leaseOutputObj leaseGpu 1) = Some 7
   \<and> 1 \<in> set (lease_connectors (leaseObj leaseGpu 8))
   \<and> lease_answer (leaseObj (handleLeaseRequest (\<lambda>objects. Some (5, 99)) 8 leaseGpu) 8) = Granted 5 99"
  by (simp add: leaseGpu_def DrmGpu_ctor_def handleLeaseRequest_def addLeaseObjects_def
        grant_def leased_def)

section \<open>The mode flag over the lifetime of the device\<close>

lemmas prim_defs = emit_def setPipeline_def setOutput_def setActive_def deletePipeline_def
  deleteOutput_def removeOutput_def removeLeaseOutput_def leased_def leaseEnded_def grant_def
  removeOne_opt_def

lemma hardware_prims:
  "hardware (emit sig s) = hardware s"
  "hardware (setPipeline out p s) = hardware s"
  "hardware (setOutput pl out' s) = hardware s"
  "hardware (setActive pl b s) = hardware s"
  "hardware (deletePipeline p s) = hardware s"
  "hardware (deleteOutput out' s) = hardware s"
  "hardware (removeOutput out s) = hardware s"
  "hardware (removeLeaseOutput out s) = hardware s"
  "hardware (leased out l s) = hardware s"
  "hardware (leaseEnded out s) = hardware s"
  "hardware (grant l fd i s) = hardware s"
  by (simp_all add: hardware_def prim_defs Let_def split: option.splits)

lemma hardware_handleLeaseRevoked_outputs: "hardware (handleLeaseRevoked_outputs conns s) = hardware s"
  by (induction conns arbitrary: s) (simp_all add: hardware_prims)

lemma hardware_handleLeaseRevoked: "hardware (handleLeaseRevoked l s) = hardware s"
  using hardware_handleLeaseRevoked_outputs [of "lease_connectors (leaseObj s l)" s]
  by (simp add: handleLeaseRevoked_def Let_def hardware_def)

lemma hardware_deny: "hardware (deny l s) = hardware s"
  using hardware_handleLeaseRevoked [of l s]
  by (simp add: deny_def Let_def hardware_def split: LeaseAnswer.splits)

lemma hardware_handleLeaseRequest_leased: "hardware (handleLeaseRequest_leased l outs s) = hardware s"
  by (induction outs arbitrary: s) (simp_all add: hardware_prims)

lemma hardware_handleLeaseRequest: "hardware (handleLeaseRequest k l s) = hardware s"
proof -
  have a: "hardware (s\<lparr>leaseCalls := x\<rparr>) = hardware s" for x
    by (simp add: hardware_def)
  show ?thesis
    by (simp add: handleLeaseRequest_def Let_def hardware_deny hardware_handleLeaseRequest_leased
          hardware_prims a split: prod.splits option.splits)
qed

lemma hardware_lessees: "hardware (updateOutputs_lessees ls los s) = hardware s"
  by (induction los arbitrary: s) (simp_all add: hardware_deny split: option.splits)

lemma hardware_scan: "hardware (fst (updateOutputs_scan k res (s, removed))) = hardware s"
proof (induction res arbitrary: s removed)
  case Nil
  show ?case by simp
next
  case (Cons c res)
  have a: "hardware (s\<lparr>m_connectors := x, connectorObj := y\<rparr>) = hardware s" for x y
    by (simp add: hardware_def)
  have b: "hardware (s\<lparr>connectorObj := y\<rparr>) = hardware s" for y
    by (simp add: hardware_def)
  show ?case
    by (simp add: Cons.IH a b Let_def split: option.splits)
qed

lemma hardware_removed: "hardware (updateOutputs_removed cs s) = hardware s"
proof (induction cs arbitrary: s)
  case Nil
  show ?case by simp
next
  case (Cons c cs)
  have a: "hardware (s1\<lparr>m_connectors := x\<rparr>) = hardware s1" for x s1
    by (simp add: hardware_def)
  show ?case
    by (simp add: Cons.IH a hardware_prims Let_def split: option.splits)
qed

lemma hardware_connected: "hardware (fst (updateOutputs_connected cs acc s)) = hardware s"
  by (induction cs arbitrary: s acc) (simp_all add: hardware_prims split: option.splits)

lemma hardware_inventory: "hardware (fst (updateOutputs_inventory k res s)) = hardware s"
proof -
  let ?s1 = "updateOutputs_lessees (drmModeListLessees k) (m_leaseOutputs s) s"
  obtain s2 removed where sc: "updateOutputs_scan k res (?s1, m_connectors ?s1) = (s2, removed)"
    by force
  have "hardware s2 = hardware s"
    using hardware_scan [of k res ?s1 "m_connectors ?s1"] sc by (simp add: hardware_lessees)
  then show ?thesis
    by (simp add: updateOutputs_inventory_def Let_def sc hardware_connected hardware_removed)
qed

lemma hardware_stash: "hardware (snd (updateOutputs_stash outs old s)) = hardware s"
proof (induction outs arbitrary: s old)
  case Nil
  show ?case by simp
next
  case (Cons out outs)
  have a: "hardware (s1\<lparr>m_pipelines := x\<rparr>) = hardware s1" for x s1
    by (simp add: hardware_def)
  show ?case
    by (simp add: Cons.IH a hardware_prims Let_def)
qed

lemma hardware_leased: "hardware (snd (snd (updateOutputs_leased los cs xs s))) = hardware s"
proof (induction los arbitrary: s cs xs)
  case Nil
  show ?case by simp
next
  case (Cons lo los)
  have a: "hardware (s1\<lparr>m_pipelines := x\<rparr>) = hardware s1" for x s1
    by (simp add: hardware_def)
  show ?case
    by (simp add: Cons.IH a Let_def)
qed

lemma hardware_pool: "hardware (snd (snd (snd (updateOutputs_pool connected s)))) = hardware s"
proof -
  obtain old s1 where st: "updateOutputs_stash (m_drmOutputs s) [] s = (old, s1)" by force
  have "hardware s1 = hardware s" using hardware_stash [of "m_drmOutputs s" "[]" s] st by simp
  then show ?thesis
    using hardware_leased [of "m_leaseOutputs s1" _ "m_crtcs s1" s1]
    by (simp add: updateOutputs_pool_def st Let_def split: prod.splits)
qed

lemma hardware_search: "hardware (snd (findWorkingCombination t ps cs xs s)) = hardware s"
  using search_frame_search(1) [of s t ps cs xs] by (simp add: search_frame_def hardware_def)

lemma hardware_revert: "updateOutputs_revert old config s = Some (config', s') \<Longrightarrow> hardware s' = hardware s"
proof (induction old arbitrary: config s)
  case Nil
  then show ?case by simp
next
  case (Cons e old)
  obtain out v where e: "e = (out, v)" by (cases e)
  with Cons.prems obtain p where v: "v = Some p" by (cases v) auto
  from Cons.prems e v have "updateOutputs_revert old (config @ [p]) (setOutput p (Some out) s) = Some (config', s')"
    by simp
  from Cons.IH [OF this] show ?case by (simp add: hardware_prims)
qed

lemma hardware_discard: "hardware (updateOutputs_discard old s) = hardware s"
  by (induction old arbitrary: s) (auto simp: hardware_prims)

lemma hardware_negotiate:
  assumes "updateOutputs_negotiate t connected s = Some (config, s')"
    shows "hardware s' = hardware s"
proof -
  obtain old cs xs s2 where p: "updateOutputs_pool connected s = (old, cs, xs, s2)"
    by (metis prod.collapse)
  obtain c3 s3 where f: "findWorkingCombination t [] cs xs s2 = (c3, s3)" by force
  have h2: "hardware s2 = hardware s" using hardware_pool [of connected s] p by simp
  have h3: "hardware s3 = hardware s2" using hardware_search [of t "[]" cs xs s2] f by simp
  have a: "hardware (s1\<lparr>m_pipelines := x\<rparr>) = hardware s1" for x s1
    by (simp add: hardware_def)
  show ?thesis
  proof (cases "c3 = [] \<and> cs \<noteq> []")
    case True
    with assms p f obtain c4 s4 where r: "updateOutputs_revert old c3 s3 = Some (c4, s4)"
      and s': "s' = s4\<lparr>m_pipelines := m_pipelines s4 @ updateOutputs_unleased s4 (m_leaseOutputs s4) c4\<rparr>"
      by (auto simp: updateOutputs_negotiate_def Let_def split: option.splits)
    from hardware_revert [OF r] h2 h3 s' a show ?thesis by simp
  next
    case False
    with assms p f have "s' = (updateOutputs_discard old s3)\<lparr>m_pipelines := m_pipelines (updateOutputs_discard old s3) @ c3\<rparr>"
      by (auto simp: updateOutputs_negotiate_def Let_def)
    with h2 h3 a show ?thesis by (simp add: hardware_discard)
  qed
qed

lemma hardware_apply: "updateOutputs_apply k config s = Some s' \<Longrightarrow> hardware s' = hardware s"
proof (induction config arbitrary: s)
  case Nil
  then show ?case by simp
next
  case (Cons p config)
  have a: "hardware (s1\<lparr>leaseOutputObj := x\<rparr>) = hardware s1" for x s1
    by (simp add: hardware_def)
  have b: "hardware (s1\<lparr>leaseOutputObj := x, m_leaseOutputs := y, nextLeaseOutput := z\<rparr>) = hardware s1" for x y z s1
    by (simp add: hardware_def)
  have c: "hardware (s1\<lparr>softwareCursorForced := x\<rparr>) = hardware s1" for x s1
    by (simp add: hardware_def)
  have d: "hardware (s1\<lparr>m_outputs := x, m_drmOutputs := y\<rparr>) = hardware s1" for x y s1
    by (simp add: hardware_def)
  from Cons.prems show ?case
    by (auto simp: Let_def hardware_prims a b c d split: if_splits option.splits dest!: Cons.IH)
qed

lemma hardware_updateOutputs:
  assumes "updateOutputs k t s = Some (ret, s')"
    shows "hardware s' = hardware s"
proof (cases "drmModeGetResources_connectors k")
  case None
  with assms show ?thesis by (simp add: updateOutputs_def)
next
  case (Some res)
  obtain s1 connected where i: "updateOutputs_inventory k res s = (s1, connected)" by force
  with assms Some obtain config s2 s3 where n: "updateOutputs_negotiate t connected s1 = Some (config, s2)"
    and a: "updateOutputs_apply k (rev config) s2 = Some s3"
    and s': "s' = s3\<lparr>leaseDeviceDrmMaster := True\<rparr>"
    by (auto simp: updateOutputs_def split: option.splits)
  have "hardware s1 = hardware s" using hardware_inventory [of k res s] i by simp
  moreover have "hardware s' = hardware s3" using s' by (simp add: hardware_def)
  ultimately show ?thesis using hardware_negotiate [OF n] hardware_apply [OF a] by simp
qed

lemma hardware_lifetime: "lifetime s s' \<Longrightarrow> hardware s' = hardware s"
  by (induction rule: lifetime.induct)
     (simp_all add: hardware_updateOutputs hardware_handleLeaseRequest hardware_handleLeaseRevoked
        hardware_prims)

lemma createPlanes_eq: "createPlanes ps planes = planes @ map fst (filter snd ps)"
  by (induction ps arbitrary: planes) auto

lemma createCrtcs_atomic_primary:
  "c \<in> set (createCrtcs drv True crtcs i planes acc) \<Longrightarrow> c \<in> set acc \<or> crtc_primaryPlane c \<noteq> None"
proof (induction crtcs arbitrary: i planes acc)
  case Nil
  then show ?case by simp
next
  case (Cons x crtcs)
  show ?case
  proof (cases "findPrimary planes i x None")
    case None
    with Cons show ?thesis by simp
  next
    case (Some pl)
    with Cons.prems have
      "c \<in> set (createCrtcs drv True crtcs (Suc i) (removeOne_opt (Some pl) planes) acc)
       \<or> c \<in> set (createCrtcs drv True crtcs (Suc i) (removeOne_opt (Some pl) planes)
                    (acc @ [\<lparr>crtc_id = x, crtc_pipeIndex = i, crtc_primaryPlane = Some pl\<rparr>]))"
      by (simp add: Let_def split: if_splits)
    then show ?thesis using Cons.IH by fastforce
  qed
qed

lemma initDrmResources_flag:
  "m_atomicModeSetting (initDrmResources drv s) =
     (drmSetClientCap_ATOMIC drv \<and>
      (\<exists>ps. drmModeGetPlaneResources drv = Some ps \<and> createPlanes ps (m_planes s) \<noteq> []))"
  by (auto simp: initDrmResources_def Let_def split: option.splits)

lemma DrmGpu_new_flag:
  "m_atomicModeSetting (DrmGpu_new noams drv) =
     (\<not> noams \<and> drmSetClientCap_ATOMIC drv \<and>
      (\<exists>ps. drmModeGetPlaneResources drv = Some ps \<and> (\<exists>e \<in> set ps. snd e)))"
proof -
  have "m_planes DrmGpu_ctor = []" "\<not> m_atomicModeSetting DrmGpu_ctor"
    by (simp_all add: DrmGpu_ctor_def)
  moreover have "(map fst (filter snd ps) \<noteq> []) = (\<exists>e \<in> set ps. snd e)" for ps :: "(DrmPlane \<times> bool) list"
    by (induction ps) auto
  ultimately show ?thesis
    by (simp add: DrmGpu_new_def initDrmResources_flag createPlanes_eq)
qed

lemma DrmGpu_new_crtcs:
  assumes "m_atomicModeSetting (DrmGpu_new noams drv)" and "c \<in> set (m_crtcs (DrmGpu_new noams drv))"
    shows "crtc_primaryPlane c \<noteq> None"
proof -
  from assms(1) have na: "\<not> noams" by (simp add: DrmGpu_new_flag)
  have c0: "m_crtcs DrmGpu_ctor = []" by (simp add: DrmGpu_ctor_def)
  from assms na have at: "m_atomicModeSetting (initDrmResources drv DrmGpu_ctor)"
    by (simp add: DrmGpu_new_def)
  then obtain ps where ps: "drmSetClientCap_ATOMIC drv" "drmModeGetPlaneResources drv = Some ps"
      "createPlanes ps (m_planes DrmGpu_ctor) \<noteq> []"
    by (auto simp: initDrmResources_flag)
  from assms(2) na ps c0 obtain crtcs planes where
    "c \<in> set (createCrtcs drv True crtcs 0 planes [])"
    by (auto simp: DrmGpu_new_def initDrmResources_def Let_def split: option.splits)
  from createCrtcs_atomic_primary [OF this] show ?thesis by simp
qed

text \<open>
  C4 (amended). If the atomic client-capability request fails, or the plane resources
  cannot be queried, or no plane object initialises, the device's atomic-mode-setting flag
  is false after construction and in every later state of the device. A CRTC to which no
  primary plane can be matched does not change the flag: in atomic mode it is left out
  of the device's CRTC list, so every listed CRTC has a primary plane.
\<close>

theorem C4_mode_flag_lifetime:
  assumes "lifetime (DrmGpu_new KWIN_DRM_NO_AMS drv) s'"
    shows "(\<not> drmSetClientCap_ATOMIC drv \<or> drmModeGetPlaneResources drv = None
              \<or> (\<exists>ps. drmModeGetPlaneResources drv = Some ps \<and> (\<forall>e \<in> set ps. \<not> snd e))
            \<longrightarrow> \<not> m_atomicModeSetting s')
           \<and> m_atomicModeSetting s' =
                (\<not> KWIN_DRM_NO_AMS \<and> drmSetClientCap_ATOMIC drv \<and>
                 (\<exists>ps. drmModeGetPlaneResources drv = Some ps \<and> (\<exists>e \<in> set ps. snd e)))
           \<and> (m_atomicModeSetting s' \<longrightarrow> (\<forall>c \<in> set (m_crtcs s'). crtc_primaryPlane c \<noteq> None))"
proof -
  from hardware_lifetime [OF assms]
  have f: "m_atomicModeSetting s' = m_atomicModeSetting (DrmGpu_new KWIN_DRM_NO_AMS drv)"
    and c: "m_crtcs s' = m_crtcs (DrmGpu_new KWIN_DRM_NO_AMS drv)"
    by (simp_all add: hardware_def)
  have 2: "m_atomicModeSetting s' =
             (\<not> KWIN_DRM_NO_AMS \<and> drmSetClientCap_ATOMIC drv \<and>
              (\<exists>ps. drmModeGetPlaneResources drv = Some ps \<and> (\<exists>e \<in> set ps. snd e)))"
    using f by (simp add: DrmGpu_new_flag)
  have 3: "m_atomicModeSetting s' \<longrightarrow> (\<forall>c \<in> set (m_crtcs s'). crtc_primaryPlane c \<noteq> None)"
    using f c DrmGpu_new_crtcs [of KWIN_DRM_NO_AMS drv] by auto
  from 2 3 show ?thesis by auto
qed

theorem C4_mode_flag_lifetime_witness:
  "\<not> m_atomicModeSetting (handleLeaseRevoked 7 (DrmGpu_new False legacyDriver))
   \<and> m_atomicModeSetting (handleLeaseRevoked 7 (DrmGpu_new False atomicDriver))
   \<and> map crtc_id (m_crtcs (handleLeaseRevoked 7 (DrmGpu_new False atomicDriver))) = [50]
   \<and> map (\<lambda>c. crtc_primaryPlane c \<noteq> None)
         (m_crtcs (handleLeaseRevoked 7 (DrmGpu_new False atomicDriver))) = [True]"
proof -
  have l: "lifetime (DrmGpu_new False legacyDriver) (handleLeaseRevoked 7 (DrmGpu_new False legacyDriver))"
    by (rule lifetime_handleLeaseRevoked [OF lifetime_start])
  have a: "lifetime (DrmGpu_new False atomicDriver) (handleLeaseRevoked 7 (DrmGpu_new False atomicDriver))"
    by (rule lifetime_handleLeaseRevoked [OF lifetime_start])
  have 1: "\<not> drmSetClientCap_ATOMIC legacyDriver"
    by (simp add: legacyDriver_def)
  have 2: "drmSetClientCap_ATOMIC atomicDriver"
          "drmModeGetPlaneResources atomicDriver =
             Some [(\<lparr>plane_id = 31, plane_type = Primary, plane_crtcs = [0], plane_CrtcId = 50,
                     plane_formats = [DRM_FORMAT_XRGB8888]\<rparr>, True)]"
    by (simp_all add: atomicDriver_def)
  have 3: "m_crtcs (handleLeaseRevoked 7 (DrmGpu_new False atomicDriver)) =
             [\<lparr>crtc_id = 50, crtc_pipeIndex = 0,
               crtc_primaryPlane = Some \<lparr>plane_id = 31, plane_type = Primary, plane_crtcs = [0],
                  plane_CrtcId = 50, plane_formats = [DRM_FORMAT_XRGB8888]\<rparr>\<rparr>]"
    by (simp add: atomicDriver_def DrmGpu_new_def initDrmResources_def DrmGpu_ctor_def Let_def
          handleLeaseRevoked_def isCrtcSupported_def removeOne_opt_def)
  from C4_mode_flag_lifetime [OF l] C4_mode_flag_lifetime [OF a] 1 2 3 show ?thesis
    by simp
qed

text \<open>
  C4 as stated fails in its fourth case: with the atomic capability granted and
  one cursor plane, no primary plane can be matched to CRTC 50, yet the device stays in
  atomic mode; the CRTC is left out instead.
\<close>

theorem C4_counterexample:
  "drmSetClientCap_ATOMIC cursorOnlyDriver
   \<and> findPrimary (m_planes (DrmGpu_new False cursorOnlyDriver)) 0 50 None = None
   \<and> m_atomicModeSetting (DrmGpu_new False cursorOnlyDriver)
   \<and> m_crtcs (DrmGpu_new False cursorOnlyDriver) = []"
  by (simp add: cursorOnlyDriver_def DrmGpu_new_def initDrmResources_def DrmGpu_ctor_def Let_def)

section \<open>Leased resources stay out of the search\<close>

lemma conn_lessees: "m_connectors (updateOutputs_lessees ls los s) = m_connectors s"
proof (induction los arbitrary: s)
  case Nil
  show ?case by simp
next
  case (Cons lo los)
  have a: "m_connectors (handleLeaseRevoked_outputs cs s1) = m_connectors s1" for cs s1
    by (induction cs arbitrary: s1) (simp_all add: leaseEnded_def)
  have "m_connectors (deny l s1) = m_connectors s1" for l s1
    by (simp add: deny_def handleLeaseRevoked_def Let_def a split: LeaseAnswer.splits)
  then show ?case by (simp add: Cons.IH split: option.splits)
qed

lemma conn_scan:
  "distinct (m_connectors s) \<Longrightarrow> distinct (m_connectors (fst (updateOutputs_scan k res (s, removed))))"
  by (induction res arbitrary: s removed) (simp_all add: Let_def split: option.splits)

lemma conn_removed:
  "distinct (m_connectors s) \<Longrightarrow> distinct (m_connectors (updateOutputs_removed cs s))"
proof (induction cs arbitrary: s)
  case Nil
  then show ?case by simp
next
  case (Cons c cs)
  have "m_connectors (removeOutput out s) = m_connectors s" for out
    by (simp add: prim_defs Let_def split: option.splits)
  moreover have "m_connectors (removeLeaseOutput out s) = m_connectors s" for out
    by (simp add: prim_defs Let_def)
  ultimately show ?case
    using Cons.prems by (auto simp: Let_def split: option.splits intro!: Cons.IH)
qed

lemma conn_connected:
  "distinct (acc @ cs) \<Longrightarrow> distinct (snd (updateOutputs_connected cs acc s))"
  by (induction cs arbitrary: acc s) (auto split: option.splits)

lemma inventory_connected_distinct:
  assumes "distinct (m_connectors s)"
    shows "distinct (snd (updateOutputs_inventory k res s))"
proof -
  let ?s1 = "updateOutputs_lessees (drmModeListLessees k) (m_leaseOutputs s) s"
  obtain s2 removed where sc: "updateOutputs_scan k res (?s1, m_connectors ?s1) = (s2, removed)"
    by force
  have "distinct (m_connectors ?s1)" using assms by (simp add: conn_lessees)
  then have "distinct (m_connectors s2)" using conn_scan [of ?s1 k res "m_connectors ?s1"] sc by simp
  then have "distinct (m_connectors (updateOutputs_removed removed s2))" by (rule conn_removed)
  then show ?thesis
    by (simp add: updateOutputs_inventory_def Let_def sc conn_connected)
qed

text \<open>The stash loop touches the pipeline list, the outputs and the signal log only.\<close>

lemma stash_keeps:
  "updateOutputs_stash outs old s = (old', s') \<Longrightarrow>
     m_atomicModeSetting s' = m_atomicModeSetting s \<and> m_crtcs s' = m_crtcs s \<and>
     m_leaseOutputs s' = m_leaseOutputs s \<and> leaseOutputObj s' = leaseOutputObj s \<and>
     pipelineObj s' = pipelineObj s \<and> connectorObj s' = connectorObj s \<and>
     m_drmOutputs s' = m_drmOutputs s \<and> m_outputs s' = m_outputs s \<and>
     nextPipeline s' = nextPipeline s \<and> livePipelines s' = livePipelines s"
proof (induction outs arbitrary: old s)
  case Nil
  then show ?case by simp
next
  case (Cons out outs)
  let ?s1 = "if \<not> o_enabled (outputObj s out) then emit (OutputEnabled out) s else s"
  let ?p = "o_pipeline (outputObj ?s1 out)"
  let ?s3 = "setPipeline out None (?s1\<lparr>m_pipelines := removeOne_opt ?p (m_pipelines ?s1)\<rparr>)"
  from Cons.prems have r: "updateOutputs_stash outs (qmap_insert out ?p old) ?s3 = (old', s')"
    by (simp add: Let_def)
  have "m_atomicModeSetting ?s3 = m_atomicModeSetting s \<and> m_crtcs ?s3 = m_crtcs s \<and>
     m_leaseOutputs ?s3 = m_leaseOutputs s \<and> leaseOutputObj ?s3 = leaseOutputObj s \<and>
     pipelineObj ?s3 = pipelineObj s \<and> connectorObj ?s3 = connectorObj s \<and>
     m_drmOutputs ?s3 = m_drmOutputs s \<and> m_outputs ?s3 = m_outputs s \<and>
     nextPipeline ?s3 = nextPipeline s \<and> livePipelines ?s3 = livePipelines s"
    by (simp add: emit_def setPipeline_def)
  with Cons.IH [OF r] show ?case by (simp only:)
qed

lemma leased_loop_keeps:
  "updateOutputs_leased los cs xs s = (cs', xs', s') \<Longrightarrow>
     m_atomicModeSetting s' = m_atomicModeSetting s \<and> m_crtcs s' = m_crtcs s \<and>
     m_leaseOutputs s' = m_leaseOutputs s \<and> leaseOutputObj s' = leaseOutputObj s \<and>
     pipelineObj s' = pipelineObj s \<and> connectorObj s' = connectorObj s \<and>
     m_drmOutputs s' = m_drmOutputs s \<and> m_outputs s' = m_outputs s \<and> outputObj s' = outputObj s \<and>
     nextPipeline s' = nextPipeline s \<and> livePipelines s' = livePipelines s"
proof (induction los arbitrary: cs xs s)
  case Nil
  then show ?case by simp
next
  case (Cons lo los)
  let ?p = "lo_pipeline (leaseOutputObj s lo)"
  show ?case
  proof (cases "lo_lease (leaseOutputObj s lo) \<noteq> None")
    case True
    with Cons.prems have r: "updateOutputs_leased los (remove1 (pl_connector (pipelineObj s ?p)) cs)
        (remove1 (pl_crtc (pipelineObj s ?p)) xs) s = (cs', xs', s')"
      by (simp add: Let_def)
    from Cons.IH [OF r] show ?thesis .
  next
    case False
    with Cons.prems have r: "updateOutputs_leased los cs xs (s\<lparr>m_pipelines := remove1 ?p (m_pipelines s)\<rparr>)
         = (cs', xs', s')"
      by (simp add: Let_def)
    from Cons.IH [OF r] show ?thesis by simp
  qed
qed

lemma leased_loop_excludes:
  "updateOutputs_leased los cs xs s = (cs', xs', s') \<Longrightarrow> distinct cs \<Longrightarrow> distinct xs \<Longrightarrow>
     distinct cs' \<and> distinct xs' \<and> set cs' \<subseteq> set cs \<and> set xs' \<subseteq> set xs \<and>
     (\<forall>lo \<in> set los. lo_lease (leaseOutputObj s lo) \<noteq> None \<longrightarrow>
        pl_connector (pipelineObj s (lo_pipeline (leaseOutputObj s lo))) \<notin> set cs' \<and>
        pl_crtc (pipelineObj s (lo_pipeline (leaseOutputObj s lo))) \<notin> set xs')"
proof (induction los arbitrary: cs xs s)
  case Nil
  then show ?case by simp
next
  case (Cons lo los)
  let ?p = "lo_pipeline (leaseOutputObj s lo)"
  show ?case
  proof (cases "lo_lease (leaseOutputObj s lo) \<noteq> None")
    case True
    with Cons.prems(1) have r: "updateOutputs_leased los (remove1 (pl_connector (pipelineObj s ?p)) cs)
        (remove1 (pl_crtc (pipelineObj s ?p)) xs) s = (cs', xs', s')"
      by (simp add: Let_def)
    from Cons.IH [OF r] Cons.prems(2,3)
    have ih: "distinct cs'" "distinct xs'"
      "set cs' \<subseteq> set (remove1 (pl_connector (pipelineObj s ?p)) cs)"
      "set xs' \<subseteq> set (remove1 (pl_crtc (pipelineObj s ?p)) xs)"
      "\<forall>lo \<in> set los. lo_lease (leaseOutputObj s lo) \<noteq> None \<longrightarrow>
        pl_connector (pipelineObj s (lo_pipeline (leaseOutputObj s lo))) \<notin> set cs' \<and>
        pl_crtc (pipelineObj s (lo_pipeline (leaseOutputObj s lo))) \<notin> set xs'"
      by simp_all
    from ih(3,4) Cons.prems(2,3)
    have "pl_connector (pipelineObj s ?p) \<notin> set cs'" "pl_crtc (pipelineObj s ?p) \<notin> set xs'"
      "set cs' \<subseteq> set cs" "set xs' \<subseteq> set xs"
      by auto
    with ih show ?thesis by auto
  next
    case False
    with Cons.prems(1) have r: "updateOutputs_leased los cs xs (s\<lparr>m_pipelines := remove1 ?p (m_pipelines s)\<rparr>)
         = (cs', xs', s')"
      by (simp add: Let_def)
    from Cons.IH [OF r Cons.prems(2,3)] False show ?thesis by auto
  qed
qed

lemma search_result_within:
  assumes r: "findWorkingCombination t [] cs xs s = (config, s')" and p: "p \<in> set config"
    shows "pl_connector (pipelineObj s' p) \<in> set cs \<and> pl_crtc (pipelineObj s' p) \<in> set xs"
proof -
  have "search_extends [] cs xs s (config, s')"
    using search_extends_search(1) [of "[]" cs xs s t] r by simp
  with p have m: "map (\<lambda>p. pl_connector (pipelineObj s' p)) config = take (length config) cs"
    and x: "mset (map (\<lambda>p. pl_crtc (pipelineObj s' p)) config) \<subseteq># mset xs"
    by (auto simp: search_extends_def)
  from p have "pl_connector (pipelineObj s' p) \<in> set (map (\<lambda>p. pl_connector (pipelineObj s' p)) config)"
    by simp
  with m have 1: "pl_connector (pipelineObj s' p) \<in> set cs"
    using set_take_subset [of "length config" cs] by auto
  from p have "pl_crtc (pipelineObj s' p) \<in># mset (map (\<lambda>p. pl_crtc (pipelineObj s' p)) config)"
    by simp
  with mset_subset_eqD [OF x] have "pl_crtc (pipelineObj s' p) \<in># mset xs" by blast
  with 1 show ?thesis by simp
qed

text \<open>
  C7. In every refresh, for every lease output that holds a lease when the search lists
  are built (device lists without repetition): its pipeline's connector is not in the
  connector list and its pipeline's CRTC is not in the CRTC pool passed to the search, and
  no pipeline returned by the search uses that connector or that CRTC.
\<close>

theorem C7_leased_resources_excluded:
  assumes inv: "updateOutputs_inventory k resources s = (s1, connected)"
      and pool: "updateOutputs_pool connected s1 = (old, connectors, crtcs, s2)"
      and search: "findWorkingCombination t [] connectors crtcs s2 = (config, s3)"
      and dc: "distinct (m_connectors s)"
      and dx: "distinct (m_crtcs s)"
      and lo: "leaseOutput \<in> set (m_leaseOutputs s1)"
      and leased: "lo_lease (leaseOutputObj s1 leaseOutput) \<noteq> None"
    shows "pl_connector (pipelineObj s1 (lo_pipeline (leaseOutputObj s1 leaseOutput))) \<notin> set connectors
           \<and> pl_crtc (pipelineObj s1 (lo_pipeline (leaseOutputObj s1 leaseOutput))) \<notin> set crtcs
           \<and> (\<forall>p \<in> set config.
                 pl_connector (pipelineObj s3 p)
                   \<noteq> pl_connector (pipelineObj s1 (lo_pipeline (leaseOutputObj s1 leaseOutput)))
                 \<and> pl_crtc (pipelineObj s3 p)
                   \<noteq> pl_crtc (pipelineObj s1 (lo_pipeline (leaseOutputObj s1 leaseOutput))))"
proof -
  have d1: "distinct connected"
    using inventory_connected_distinct [OF dc, of k resources] inv by simp
  have "hardware s1 = hardware s"
    using hardware_inventory [of k resources s] inv by simp
  with dx have x1: "distinct (m_crtcs s1)" by (simp add: hardware_def)
  obtain old' sa where st: "updateOutputs_stash (m_drmOutputs s1) [] s1 = (old', sa)" by force
  note ka = stash_keeps [OF st]
  let ?sorted = "if m_atomicModeSetting sa
                 then std_sort (\<lambda>c1 c2. conn_CrtcId (connectorObj sa c2) < conn_CrtcId (connectorObj sa c1)) connected
                 else connected"
  have ds: "distinct ?sorted" using d1 by (simp add: distinct_std_sort)
  from pool st have l: "updateOutputs_leased (m_leaseOutputs sa) ?sorted (m_crtcs sa) sa = (connectors, crtcs, s2)"
    by (simp add: updateOutputs_pool_def Let_def split: prod.splits)
  from leased_loop_excludes [OF l ds] x1 ka lo leased
  have e: "pl_connector (pipelineObj s1 (lo_pipeline (leaseOutputObj s1 leaseOutput))) \<notin> set connectors"
          "pl_crtc (pipelineObj s1 (lo_pipeline (leaseOutputObj s1 leaseOutput))) \<notin> set crtcs"
    by auto
  have "pl_connector (pipelineObj s3 p)
          \<noteq> pl_connector (pipelineObj s1 (lo_pipeline (leaseOutputObj s1 leaseOutput)))
        \<and> pl_crtc (pipelineObj s3 p)
          \<noteq> pl_crtc (pipelineObj s1 (lo_pipeline (leaseOutputObj s1 leaseOutput)))"
    if "p \<in> set config" for p
    using search_result_within [OF search that] e by auto
  with e show ?thesis by blast
qed

theorem C7_leased_resources_excluded_witness:
  "lo_lease (leaseOutputObj (fst (updateOutputs_inventory leaseRefresh [20, 21] leaseGpu)) 1) = Some 7
   \<and> fst (snd (updateOutputs_pool (snd (updateOutputs_inventory leaseRefresh [20, 21] leaseGpu))
                  (fst (updateOutputs_inventory leaseRefresh [20, 21] leaseGpu)))) = [21]
   \<and> fst (snd (snd (updateOutputs_pool (snd (updateOutputs_inventory leaseRefresh [20, 21] leaseGpu))
                  (fst (updateOutputs_inventory leaseRefresh [20, 21] leaseGpu))))) = [crtc41]
   \<and> 20 \<notin> set (fst (snd (updateOutputs_pool
                  (snd (updateOutputs_inventory leaseRefresh [20, 21] leaseGpu))
                  (fst (updateOutputs_inventory leaseRefresh [20, 21] leaseGpu)))))
   \<and> crtc40 \<notin> set (fst (snd (snd (updateOutputs_pool
                  (snd (updateOutputs_inventory leaseRefresh [20, 21] leaseGpu))
                  (fst (updateOutputs_inventory leaseRefresh [20, 21] leaseGpu))))))"
proof -
  let ?I = "updateOutputs_inventory leaseRefresh [20, 21] leaseGpu"
  let ?P = "updateOutputs_pool (snd ?I) (fst ?I)"
  let ?R = "findWorkingCombination (\<lambda>s ps. True) [] (fst (snd ?P)) (fst (snd (snd ?P))) (snd (snd (snd ?P)))"
  have inv: "?I = (fst ?I, snd ?I)" by simp
  have pool: "?P = (fst ?P, fst (snd ?P), fst (snd (snd ?P)), snd (snd (snd ?P)))" by simp
  have search: "?R = (fst ?R, snd ?R)" by simp
  have dc: "distinct (m_connectors leaseGpu)" by (simp add: leaseGpu_def)
  have dx: "distinct (m_crtcs leaseGpu)" by (simp add: leaseGpu_def crtc40_def crtc41_def)
  have lo: "1 \<in> set (m_leaseOutputs (fst ?I))" by code_simp
  have l: "lo_lease (leaseOutputObj (fst ?I) 1) = Some 7" by code_simp
  then have leased: "lo_lease (leaseOutputObj (fst ?I) 1) \<noteq> None" by simp
  have c: "pl_connector (pipelineObj (fst ?I) (lo_pipeline (leaseOutputObj (fst ?I) 1))) = 20" by code_simp
  have x: "pl_crtc (pipelineObj (fst ?I) (lo_pipeline (leaseOutputObj (fst ?I) 1))) = crtc40" by code_simp
  have e1: "fst (snd ?P) = [21]" by code_simp
  have e2: "fst (snd (snd ?P)) = [crtc41]" by code_simp
  from C7_leased_resources_excluded [OF inv pool search dc dx lo leased] c x l e1 e2
  show ?thesis by simp
qed

section \<open>The device lists stay free of repetitions\<close>

lemma createCrtcs_index:
  "c \<in> set (createCrtcs drv atomic ids i planes acc) \<Longrightarrow> c \<in> set acc \<or> i \<le> crtc_pipeIndex c"
proof (induction ids arbitrary: i planes acc)
  case Nil
  then show ?case by simp
next
  case (Cons x ids)
  let ?primary = "findPrimary planes i x None"
  let ?c = "\<lparr>crtc_id = x, crtc_pipeIndex = i, crtc_primaryPlane = ?primary\<rparr>"
  from Cons.prems have
    "c \<in> set (createCrtcs drv atomic ids (Suc i) planes acc)
     \<or> c \<in> set (createCrtcs drv atomic ids (Suc i) (removeOne_opt ?primary planes) acc)
     \<or> c \<in> set (createCrtcs drv atomic ids (Suc i) (removeOne_opt ?primary planes) (acc @ [?c]))"
    by (simp add: Let_def split: if_splits)
  then show ?case
    using Cons.IH [of "Suc i" planes acc] Cons.IH [of "Suc i" "removeOne_opt ?primary planes" acc]
      Cons.IH [of "Suc i" "removeOne_opt ?primary planes" "acc @ [?c]"]
    by fastforce
qed

lemma createCrtcs_distinct:
  "distinct acc \<Longrightarrow> (\<forall>c \<in> set acc. crtc_pipeIndex c < i) \<Longrightarrow>
   distinct (createCrtcs drv atomic ids i planes acc)"
proof (induction ids arbitrary: i planes acc)
  case Nil
  then show ?case by simp
next
  case (Cons x ids)
  let ?primary = "findPrimary planes i x None"
  let ?c = "\<lparr>crtc_id = x, crtc_pipeIndex = i, crtc_primaryPlane = ?primary\<rparr>"
  have a: "\<forall>c \<in> set acc. crtc_pipeIndex c < Suc i" using Cons.prems(2) by auto
  have b: "distinct (acc @ [?c])" using Cons.prems by auto
  have c: "\<forall>c \<in> set (acc @ [?c]). crtc_pipeIndex c < Suc i" using Cons.prems(2) by auto
  show ?case
    using Cons.IH [OF Cons.prems(1) a] Cons.IH [OF b c]
    by (cases atomic) (simp_all add: Let_def)
qed

lemma DrmGpu_new_lists:
  "distinct (m_connectors (DrmGpu_new noams drv)) \<and> distinct (m_crtcs (DrmGpu_new noams drv))"
proof -
  have "m_connectors DrmGpu_ctor = []" "m_crtcs DrmGpu_ctor = []"
    by (simp_all add: DrmGpu_ctor_def)
  then show ?thesis
    using createCrtcs_distinct [of "[]" 0]
    by (auto simp: DrmGpu_new_def initDrmResources_def Let_def split: option.splits)
qed


lemma conn_keeps_prims:
  "m_connectors (emit sig s) = m_connectors s"
  "m_connectors (setPipeline out p s) = m_connectors s"
  "m_connectors (setOutput pl out' s) = m_connectors s"
  "m_connectors (setActive pl b s) = m_connectors s"
  "m_connectors (deletePipeline p s) = m_connectors s"
  "m_connectors (removeOutput out s) = m_connectors s"
  "m_connectors (removeLeaseOutput out s) = m_connectors s"
  "m_connectors (leased out l s) = m_connectors s"
  "m_connectors (leaseEnded out s) = m_connectors s"
  "m_connectors (grant l fd i s) = m_connectors s"
  by (simp_all add: prim_defs Let_def split: option.splits)

lemma conn_handleLeaseRevoked: "m_connectors (handleLeaseRevoked l s) = m_connectors s"
proof -
  have "m_connectors (handleLeaseRevoked_outputs cs s1) = m_connectors s1" for cs s1
    by (induction cs arbitrary: s1) (simp_all add: conn_keeps_prims)
  then show ?thesis by (simp add: handleLeaseRevoked_def Let_def)
qed

lemma conn_handleLeaseRequest: "m_connectors (handleLeaseRequest k l s) = m_connectors s"
proof -
  have a: "m_connectors (handleLeaseRequest_leased l outs s1) = m_connectors s1" for outs s1
    by (induction outs arbitrary: s1) (simp_all add: conn_keeps_prims)
  have b: "m_connectors (deny l s1) = m_connectors s1" for s1
    by (simp add: deny_def Let_def conn_handleLeaseRevoked split: LeaseAnswer.splits)
  show ?thesis
    by (simp add: handleLeaseRequest_def Let_def a b conn_keeps_prims split: prod.splits option.splits)
qed

lemma conn_connected_state: "m_connectors (fst (updateOutputs_connected cs acc s)) = m_connectors s"
  by (induction cs arbitrary: s acc) (simp_all add: conn_keeps_prims split: option.splits)

lemma conn_inventory:
  assumes "distinct (m_connectors s)"
    shows "distinct (m_connectors (fst (updateOutputs_inventory k res s)))"
proof -
  let ?s1 = "updateOutputs_lessees (drmModeListLessees k) (m_leaseOutputs s) s"
  obtain s2 removed where sc: "updateOutputs_scan k res (?s1, m_connectors ?s1) = (s2, removed)"
    by force
  have "distinct (m_connectors ?s1)" using assms by (simp add: conn_lessees)
  then have "distinct (m_connectors s2)" using conn_scan [of ?s1 k res "m_connectors ?s1"] sc by simp
  then have "distinct (m_connectors (updateOutputs_removed removed s2))" by (rule conn_removed)
  then show ?thesis
    by (simp add: updateOutputs_inventory_def Let_def sc conn_connected_state)
qed

lemma conn_stash: "m_connectors (snd (updateOutputs_stash outs old s)) = m_connectors s"
proof (induction outs arbitrary: s old)
  case Nil
  show ?case by simp
next
  case (Cons out outs)
  have a: "m_connectors (s1\<lparr>m_pipelines := x\<rparr>) = m_connectors s1" for x s1
    by simp
  show ?case
    by (simp add: Cons.IH a conn_keeps_prims Let_def)
qed

lemma conn_leased: "m_connectors (snd (snd (updateOutputs_leased los cs xs s))) = m_connectors s"
  by (induction los arbitrary: s cs xs) (simp_all add: Let_def)

lemma conn_revert: "updateOutputs_revert old config s = Some (config', s') \<Longrightarrow> m_connectors s' = m_connectors s"
proof (induction old arbitrary: config s)
  case Nil
  then show ?case by simp
next
  case (Cons e old)
  obtain out v where e: "e = (out, v)" by (cases e)
  with Cons.prems obtain p where v: "v = Some p" by (cases v) auto
  from Cons.prems have "updateOutputs_revert old (config @ [p]) (setOutput p (Some out) s) = Some (config', s')"
    unfolding e v by simp
  from Cons.IH [OF this] show ?case by (simp add: conn_keeps_prims)
qed

lemma conn_discard: "m_connectors (updateOutputs_discard old s) = m_connectors s"
  by (induction old arbitrary: s) (auto simp: conn_keeps_prims)

lemma conn_negotiate:
  assumes "updateOutputs_negotiate t connected s = Some (config, s')"
    shows "m_connectors s' = m_connectors s"
proof -
  obtain old cs xs s2 where p: "updateOutputs_pool connected s = (old, cs, xs, s2)"
    by (metis prod.collapse)
  obtain old' sa where st: "updateOutputs_stash (m_drmOutputs s) [] s = (old', sa)" by force
  have ca: "m_connectors sa = m_connectors s" using conn_stash [of "m_drmOutputs s" "[]" s] st by simp
  let ?sorted = "if m_atomicModeSetting sa
                 then std_sort (\<lambda>c1 c2. conn_CrtcId (connectorObj sa c2) < conn_CrtcId (connectorObj sa c1)) connected
                 else connected"
  from p st have l: "updateOutputs_leased (m_leaseOutputs sa) ?sorted (m_crtcs sa) sa = (cs, xs, s2)"
    by (simp add: updateOutputs_pool_def Let_def split: prod.splits)
  have h2: "m_connectors s2 = m_connectors s"
    using conn_leased [of "m_leaseOutputs sa" ?sorted "m_crtcs sa" sa] ca unfolding l by simp
  obtain c3 s3 where f: "findWorkingCombination t [] cs xs s2 = (c3, s3)" by force
  have h3: "m_connectors s3 = m_connectors s2"
    using search_frame_search(1) [of s2 t "[]" cs xs] f by (simp add: search_frame_def)
  show ?thesis
  proof (cases "c3 = [] \<and> cs \<noteq> []")
    case True
    with assms p f obtain c4 s4 where r: "updateOutputs_revert old c3 s3 = Some (c4, s4)"
      and s': "s' = s4\<lparr>m_pipelines := m_pipelines s4 @ updateOutputs_unleased s4 (m_leaseOutputs s4) c4\<rparr>"
      by (auto simp: updateOutputs_negotiate_def Let_def split: option.splits)
    from conn_revert [OF r] h2 h3 s' show ?thesis by simp
  next
    case False
    with assms p f have "s' = (updateOutputs_discard old s3)\<lparr>m_pipelines := m_pipelines (updateOutputs_discard old s3) @ c3\<rparr>"
      by (auto simp: updateOutputs_negotiate_def Let_def)
    with h2 h3 show ?thesis by (simp add: conn_discard)
  qed
qed

lemma conn_apply: "updateOutputs_apply k config s = Some s' \<Longrightarrow> m_connectors s' = m_connectors s"
proof (induction config arbitrary: s)
  case Nil
  then show ?case by simp
next
  case (Cons p config)
  from Cons.prems show ?case
    by (auto simp: Let_def conn_keeps_prims split: if_splits option.splits dest!: Cons.IH)
qed

lemma conn_updateOutputs:
  assumes "updateOutputs k t s = Some (ret, s')" and "distinct (m_connectors s)"
    shows "distinct (m_connectors s')"
proof (cases "drmModeGetResources_connectors k")
  case None
  with assms show ?thesis by (simp add: updateOutputs_def)
next
  case (Some res)
  obtain s1 connected where i: "updateOutputs_inventory k res s = (s1, connected)" by force
  with assms Some obtain config s2 s3 where n: "updateOutputs_negotiate t connected s1 = Some (config, s2)"
    and a: "updateOutputs_apply k (rev config) s2 = Some s3"
    and s': "s' = s3\<lparr>leaseDeviceDrmMaster := True\<rparr>"
    by (auto simp: updateOutputs_def split: option.splits)
  have "distinct (m_connectors s1)" using conn_inventory [OF assms(2), of k res] i by simp
  then show ?thesis using conn_negotiate [OF n] conn_apply [OF a] s' by simp
qed

text \<open>
  The repetition-free device lists assumed above are an invariant of every device built
  by the constructor, and a refresh of such a device hands repetition-free lists to the
  search.
\<close>

lemma lifetime_lists_distinct:
  assumes "lifetime (DrmGpu_new noams drv) s"
    shows "distinct (m_connectors s) \<and> distinct (m_crtcs s)"
proof -
  have "lifetime s0 s \<Longrightarrow> distinct (m_connectors s0) \<Longrightarrow> distinct (m_connectors s)" for s0
    by (induction rule: lifetime.induct)
       (simp_all add: conn_updateOutputs conn_handleLeaseRequest conn_handleLeaseRevoked conn_keeps_prims)
  moreover have "m_crtcs s = m_crtcs (DrmGpu_new noams drv)"
    using hardware_lifetime [OF assms] by (simp add: hardware_def)
  ultimately show ?thesis using assms DrmGpu_new_lists [of noams drv] by simp
qed

lemma refresh_search_lists_distinct:
  assumes inv: "updateOutputs_inventory k resources s = (s1, connected)"
      and pool: "updateOutputs_pool connected s1 = (old, connectors, crtcs, s2)"
      and dc: "distinct (m_connectors s)"
      and dx: "distinct (m_crtcs s)"
    shows "distinct connectors \<and> distinct crtcs"
proof -
  have d1: "distinct connected"
    using inventory_connected_distinct [OF dc, of k resources] inv by simp
  have "hardware s1 = hardware s"
    using hardware_inventory [of k resources s] inv by simp
  with dx have x1: "distinct (m_crtcs s1)" by (simp add: hardware_def)
  obtain old' sa where st: "updateOutputs_stash (m_drmOutputs s1) [] s1 = (old', sa)" by force
  note ka = stash_keeps [OF st]
  let ?sorted = "if m_atomicModeSetting sa
                 then std_sort (\<lambda>c1 c2. conn_CrtcId (connectorObj sa c2) < conn_CrtcId (connectorObj sa c1)) connected
                 else connected"
  have ds: "distinct ?sorted" using d1 by (simp add: distinct_std_sort)
  from pool st have l: "updateOutputs_leased (m_leaseOutputs sa) ?sorted (m_crtcs sa) sa = (connectors, crtcs, s2)"
    by (simp add: updateOutputs_pool_def Let_def split: prod.splits)
  from leased_loop_excludes [OF l ds] x1 ka show ?thesis by simp
qed

section \<open>Rollback to the stashed pipelines\<close>

text \<open>
  C1, the code at a refresh whose search fails. The device of \<open>twoCrtcDriver\<close> comes up
  with connectors 10 and 11 on pipelines 1 and 2 (outputs 1 and 2). In the next refresh
  the connector list of the search is [10, 11] and every test commit is rejected, so the
  search returns the empty result and the refresh reverts: pipelines 1 and 2 are
  registered again and have their outputs back, but outputs 1 and 2 keep pointing at the
  hypotheses 5 and 6 that the search deleted, because the rollback loop calls only
  \<open>pipeline->setOutput(output)\<close> where commitCombination calls
  \<open>output->setPipeline(pipeline)\<close> as well. The following refresh fails in the same
  way (connector list [10, 11], empty result); it stashes these dangling pointers and
  registers them: the pipeline list after it is [1, 2, 5, 6], not the list [1, 2] from
  before the refresh.
\<close>

theorem C1_rollback_leaves_outputs_detached:
  "map_option fst (updateOutputs plugRefresh acceptAll (DrmGpu_new False twoCrtcDriver)) = Some True
   \<and> m_pipelines bootedGpu = [1, 2]
   \<and> map (\<lambda>out. o_pipeline (outputObj bootedGpu out)) [1, 2] = [Some 1, Some 2]
   \<and> refreshSearch plugRefresh rejectAll [10, 11] bootedGpu = ([10, 11], [])
   \<and> map_option fst (updateOutputs plugRefresh rejectAll bootedGpu) = Some True
   \<and> m_pipelines revertedGpu = [1, 2]
   \<and> map (\<lambda>p. pl_output (pipelineObj revertedGpu p)) [1, 2] = [Some 1, Some 2]
   \<and> map (\<lambda>out. o_pipeline (outputObj revertedGpu out)) [1, 2] = [Some 5, Some 6]
   \<and> 5 \<notin> livePipelines revertedGpu \<and> 6 \<notin> livePipelines revertedGpu
   \<and> refreshSearch plugRefresh rejectAll [10, 11] revertedGpu = ([10, 11], [])
   \<and> map_option (\<lambda>r. m_pipelines (snd r)) (updateOutputs plugRefresh rejectAll revertedGpu)
       = Some [1, 2, 5, 6]"
proof -
  have boot: "map_option fst (updateOutputs plugRefresh acceptAll (DrmGpu_new False twoCrtcDriver))
                = Some True"
    by code_simp
  have b1: "m_pipelines bootedGpu = [1, 2]"
    by code_simp
  have b2: "map (\<lambda>out. o_pipeline (outputObj bootedGpu out)) [1, 2] = [Some 1, Some 2]"
    by code_simp
  have fail: "refreshSearch plugRefresh rejectAll [10, 11] bootedGpu = ([10, 11], [])"
    by code_simp
  have ret: "map_option fst (updateOutputs plugRefresh rejectAll bootedGpu) = Some True"
    by code_simp
  have r1: "m_pipelines revertedGpu = [1, 2]"
    by code_simp
  have r2: "map (\<lambda>p. pl_output (pipelineObj revertedGpu p)) [1, 2] = [Some 1, Some 2]"
    by code_simp
  have r3: "map (\<lambda>out. o_pipeline (outputObj revertedGpu out)) [1, 2] = [Some 5, Some 6]"
    by code_simp
  have r4: "5 \<notin> livePipelines revertedGpu \<and> 6 \<notin> livePipelines revertedGpu"
    by code_simp
  have fail': "refreshSearch plugRefresh rejectAll [10, 11] revertedGpu = ([10, 11], [])"
    by code_simp
  have again: "map_option (\<lambda>r. m_pipelines (snd r)) (updateOutputs plugRefresh rejectAll revertedGpu)
                 = Some [1, 2, 5, 6]"
    by code_simp
  from boot b1 b2 fail ret r1 r2 r3 r4 fail' again show ?thesis
    by blast
qed

text \<open>
  A refresh that the kernel accepts after the failed one stashes the same dangling
  pointers: pipelines 1 and 2 stay registered beside the new pipelines 7 and 8 that
  drive the same connectors from the same CRTCs.
\<close>

lemma rollback_then_accepted_refresh:
  "map_option (\<lambda>r. map (\<lambda>p. (p, pl_connector (pipelineObj (snd r) p), crtc_id (pl_crtc (pipelineObj (snd r) p))))
                       (m_pipelines (snd r)))
     (updateOutputs plugRefresh acceptAll revertedGpu)
   = Some [(1, 10, 40), (2, 11, 41), (7, 10, 40), (8, 11, 41)]"
  by code_simp

text \<open>
  A connector unplugged in the same refresh: output 2 and its pipeline are torn down
  before the stash, the search over the remaining connector fails, and the rollback
  restores pipeline 1 only. What a rollback can restore is the pipeline set at the stash.
\<close>

lemma rollback_after_unplug:
  "set (m_pipelines dualOutputGpu) = {1, 2}
   \<and> fst (snd (updateOutputs_pool
                  (snd (updateOutputs_inventory unplugRefresh [10, 11] dualOutputGpu))
                  (fst (updateOutputs_inventory unplugRefresh [10, 11] dualOutputGpu)))) = [10]
   \<and> map_option (\<lambda>r. m_pipelines (snd r)) (updateOutputs unplugRefresh rejectAll dualOutputGpu)
       = Some [1]"
proof -
  have "set (m_pipelines dualOutputGpu) = {1, 2}"
    by (simp add: dualOutputGpu_def)
  moreover have "fst (snd (updateOutputs_pool
                  (snd (updateOutputs_inventory unplugRefresh [10, 11] dualOutputGpu))
                  (fst (updateOutputs_inventory unplugRefresh [10, 11] dualOutputGpu)))) = [10]"
    by code_simp
  moreover have "map_option (\<lambda>r. m_pipelines (snd r)) (updateOutputs unplugRefresh rejectAll dualOutputGpu)
       = Some [1]"
    by code_simp
  ultimately show ?thesis by simp
qed

end
